theory Spec2Isabelle
  imports Complex_Main "HOL-Library.Word" "HOL-Library.Multiset" "HOL-Library.Sublist"
begin

section \<open>Gerador de QR codes: the model of \<^verbatim>\<open>App.tsx\<close>\<close>

text \<open>
  The repository is one React component, present in two variants:
  \<^item> \<^verbatim>\<open>src/src/App.tsx\<close>: the hash secret is the built-in constant \<^verbatim>\<open>VAPWHV\<close> and an
    image is stored as \<^verbatim>\<open>{number}.png\<close>;
  \<^item> \<^verbatim>\<open>src/unnamed/part_000\<close>: the secret is the password typed by the user, an empty
    password is refused, and an image is stored as \<^verbatim>\<open>qrcode_{number}.png\<close>.
  Everything else is the same text in both files, so one model takes the variant as an
  argument.
\<close>

datatype variant = FixedSecret | UserSecret

subsection \<open>ECMAScript strings\<close>

text \<open>
  An ECMAScript string is a sequence of 16-bit code units; \<^verbatim>\<open>trim\<close>, \<^verbatim>\<open>split\<close> and the
  regular expressions of the source (none has the \<^verbatim>\<open>u\<close> flag) work on code units.
  \<open>js\<close> turns an ASCII literal into such a string.
\<close>

type_synonym jschar = "16 word"
type_synonym jsstring = "jschar list"

definition js :: "string \<Rightarrow> jsstring" where
  "js s = map (\<lambda>c. of_nat (of_char c)) s"

text \<open>
  \<^verbatim>\<open>\s\<close> and \<^verbatim>\<open>trim\<close> use the same set: WhiteSpace (TAB, VT, FF, ZWNBSP and the
  Unicode category Zs) together with LineTerminator (LF, CR, LS, PS).
\<close>

definition isWhiteSpace :: "jschar \<Rightarrow> bool" where
  "isWhiteSpace c \<longleftrightarrow>
     c = 0x09 \<or> c = 0x0A \<or> c = 0x0B \<or> c = 0x0C \<or> c = 0x0D \<or> c = 0x20 \<or> c = 0xA0 \<or>
     c = 0x1680 \<or> (0x2000 \<le> c \<and> c \<le> 0x200A) \<or> c = 0x2028 \<or> c = 0x2029 \<or>
     c = 0x202F \<or> c = 0x205F \<or> c = 0x3000 \<or> c = 0xFEFF"

text \<open>\<^verbatim>\<open>\d\<close> is \<^verbatim>\<open>[0-9]\<close>.\<close>

definition isDigit :: "jschar \<Rightarrow> bool" where
  "isDigit c \<longleftrightarrow> 0x30 \<le> c \<and> c \<le> 0x39"

text \<open>\<^verbatim>\<open>line.trim()\<close>\<close>

definition trim :: "jsstring \<Rightarrow> jsstring" where
  "trim s = rev (dropWhile isWhiteSpace (rev (dropWhile isWhiteSpace s)))"

text \<open>\<^verbatim>\<open>text.split(sep)\<close> for a separator of one code unit; the empty string gives \<^verbatim>\<open>[""]\<close>.\<close>

fun js_split :: "jschar \<Rightarrow> jsstring \<Rightarrow> jsstring list" where
  "js_split sep [] = [[]]"
| "js_split sep (c # cs) =
     (if c = sep then [] # js_split sep cs
      else (case js_split sep cs of
              [] \<Rightarrow> [[c]]
            | l # ls \<Rightarrow> (c # l) # ls))"

text \<open>\<^verbatim>\<open>line.replace(/\s/g, "")\<close>\<close>

definition removeWhiteSpace :: "jsstring \<Rightarrow> jsstring" where
  "removeWhiteSpace line = filter (\<lambda>c. \<not> isWhiteSpace c) line"

text \<open>\<^verbatim>\<open>/^\d+$/.test(number)\<close>: no \<^verbatim>\<open>m\<close> flag, so the anchors are the ends of the string.\<close>

definition allDigits :: "jsstring \<Rightarrow> bool" where
  "allDigits s \<longleftrightarrow> s \<noteq> [] \<and> list_all isDigit s"

text \<open>
  A non-negative integer in a template literal (\<^verbatim>\<open>${start}\<close>, \<^verbatim>\<open>${lines.length}\<close>): its
  decimal digits. Every number printed by the program is an array length or index.
\<close>

function numToString :: "nat \<Rightarrow> jsstring" where
  "numToString n =
     (if n < 10 then [of_nat (48 + n)]
      else numToString (n div 10) @ [of_nat (48 + n mod 10)])"
  by pat_completeness auto
termination
  by (relation "measure id") auto

subsection \<open>The component state, exceptions and effects\<close>

text \<open>
  The \<^verbatim>\<open>useState\<close> cells of the component. \<open>password\<close> exists in \<^verbatim>\<open>part_000\<close> only; the
  fixed-secret variant never reads it. (\<^verbatim>\<open>showPassword\<close> only toggles the input's type.)
\<close>

record app_state =
  error :: jsstring
  debugInfo :: jsstring
  password :: jsstring
  fileContent :: "jsstring list"
  isProcessing :: bool
  currentBatch :: "(nat \<times> nat) option"

text \<open>
  A thrown value or the reason of a rejected promise. \<open>Error m\<close> is an object for which
  \<^verbatim>\<open>instanceof Error\<close> holds (a \<^verbatim>\<open>TypeError\<close> is one), with message \<open>m\<close>; \<open>NonError\<close> is
  any other value.
\<close>

datatype exn = Error jsstring | NonError

text \<open>
  What \<^verbatim>\<open>undefined.replace(...)\<close> throws: a \<^verbatim>\<open>TypeError\<close>. The engine chooses the message;
  this is the text of V8.
\<close>

definition undefinedReplace :: exn where
  "undefinedReplace =
     Error (js ''Cannot read properties of undefined (reading '' @ [0x27] @ js ''replace'' @
            [0x27] @ js '')'')"

subsection \<open>The zip archive (JSZip)\<close>

text \<open>
  A JSZip instance holds \<^verbatim>\<open>files\<close>, an object keyed by the full path of each entry.
  \<^verbatim>\<open>this.files[name] = object\<close> adds the key at the end, or replaces the value of a key
  that is already there and leaves its position (the library documents \<^verbatim>\<open>file(name, data)\<close>
  as "add or update"). An association list in insertion order is that object.
  A file entry holds the data it was given: here always text with the option
  \<^verbatim>\<open>{ base64: true }\<close>, which JSZip decodes to bytes when it writes the archive.
\<close>

datatype zip_object = Dir | File jsstring

type_synonym archive = "(jsstring \<times> zip_object) list"

fun files_set :: "jsstring \<Rightarrow> zip_object \<Rightarrow> archive \<Rightarrow> archive" where
  "files_set name obj [] = [(name, obj)]"
| "files_set name obj ((k, old) # rest) =
     (if k = name then (k, obj) # rest else (k, old) # files_set name obj rest)"

text \<open>
  \<^verbatim>\<open>zip.folder(name)\<close>: the entry \<^verbatim>\<open>name/\<close> is created unless it exists, and the result is
  a view of the same archive with root \<^verbatim>\<open>name/\<close>.
\<close>

definition zip_folder :: "jsstring \<Rightarrow> archive \<Rightarrow> jsstring \<times> archive" where
  "zip_folder name files =
     (let rootPath = name @ js ''/''
      in (rootPath,
          if rootPath \<in> fst ` set files then files else files_set rootPath Dir files))"

text \<open>\<^verbatim>\<open>folder.file(name, data, { base64: true })\<close> on the view with root \<open>rootPath\<close>.\<close>

definition folder_file :: "jsstring \<Rightarrow> jsstring \<Rightarrow> jsstring \<Rightarrow> archive \<Rightarrow> archive" where
  "folder_file rootPath name data files = files_set (rootPath @ name) (File data) files"

text \<open>
  What the run does to the world outside the component: a file saved by the browser (its
  name, and the archive the blob was generated from), the timer between two batches (in
  milliseconds), and \<^verbatim>\<open>console.error\<close>.
\<close>

datatype event = Download jsstring archive | Delay nat | ConsoleError exn

text \<open>
  The three libraries are not part of the repository; the model takes them as an
  environment. \<open>SHA256 E s\<close> is \<^verbatim>\<open>CryptoJS.SHA256(s).toString()\<close>, which returns the
  digest in hexadecimal or throws (it encodes the string as UTF-8 first, and
  \<^verbatim>\<open>encodeURIComponent\<close> throws on a lone surrogate); \<open>toDataURL E url\<close> is
  the promise of \<^verbatim>\<open>QRCode.toDataURL(url, options)\<close>, resolved (\<open>Inr\<close>) or rejected
  (\<open>Inl\<close>); \<open>folder_is_null E name\<close> says that \<^verbatim>\<open>zip.folder(name)\<close> returns \<^verbatim>\<open>null\<close>;
  \<open>generateAsync E files\<close> is the reason for which \<^verbatim>\<open>zip.generateAsync\<close> rejects, if it does.
\<close>

record env =
  SHA256 :: "jsstring \<Rightarrow> exn + jsstring"
  toDataURL :: "jsstring \<Rightarrow> exn + jsstring"
  folder_is_null :: "jsstring \<Rightarrow> bool"
  generateAsync :: "archive \<Rightarrow> exn option"

subsection \<open>\<^verbatim>\<open>handleFileUpload\<close>\<close>

definition invalidLineMessage :: "jsstring \<Rightarrow> jsstring" where
  "invalidLineMessage line =
     js ''Linha cont'' @ [0xE9] @ js ''m caracteres inv'' @ [0xE1] @ js ''lidos: '' @
     [0x22] @ line @ [0x22]"

text \<open>The validation loop: the first line that fails throws.\<close>

fun validateLines :: "jsstring list \<Rightarrow> exn option" where
  "validateLines [] = None"
| "validateLines (line # rest) =
     (let number' = removeWhiteSpace line
      in if \<not> allDigits number' then Some (Error (invalidLineMessage line))
         else validateLines rest)"

definition fileLines :: "jsstring \<Rightarrow> jsstring list" where
  "fileLines text = filter (\<lambda>line. length line > 0) (map trim (js_split 0x0A text))"

definition loadedMessage :: "nat \<Rightarrow> jsstring" where
  "loadedMessage n =
     js ''Arquivo carregado com '' @ numToString n @
     js '' linha(s). Digite a senha para gerar os QR codes.''"

text \<open>
  \<open>file\<close> is the text of \<^verbatim>\<open>event.target.files?.[0]\<close>, \<open>None\<close> when no file was chosen.
  The \<^verbatim>\<open>catch\<close> shows the message of an \<^verbatim>\<open>Error\<close> and a fixed text for anything else.
\<close>

definition handleFileUpload :: "jsstring option \<Rightarrow> app_state \<Rightarrow> app_state" where
  "handleFileUpload file st =
     (case file of
        None \<Rightarrow> st
      | Some text \<Rightarrow>
          (let lines = fileLines text
           in case validateLines lines of
                None \<Rightarrow>
                  st\<lparr>fileContent := lines,
                     debugInfo := loadedMessage (length lines),
                     error := []\<rparr>
              | Some err \<Rightarrow>
                  st\<lparr>error := (case err of Error m \<Rightarrow> m
                                | NonError \<Rightarrow> js ''Erro ao processar arquivo''),
                     fileContent := []\<rparr>))"

subsection \<open>\<^verbatim>\<open>generateHash\<close>, \<^verbatim>\<open>generateQRCode\<close>, \<^verbatim>\<open>processBatch\<close>\<close>

text \<open>
  \<^verbatim>\<open>App.tsx\<close> appends the constant, \<^verbatim>\<open>part_000\<close> the password it is given; neither puts a
  separator between the two parts.
\<close>

definition generateHash :: "env \<Rightarrow> variant \<Rightarrow> jsstring \<Rightarrow> jsstring \<Rightarrow> exn + jsstring" where
  "generateHash E v number pw =
     (let combinedString =
            number @ (case v of FixedSecret \<Rightarrow> js ''VAPWHV'' | UserSecret \<Rightarrow> pw)
      in SHA256 E combinedString)"

definition generateQRCode :: "env \<Rightarrow> jsstring \<Rightarrow> exn + jsstring" where
  "generateQRCode E url = toDataURL E url"

record QRCodeData =
  url :: jsstring
  qrDataUrl :: jsstring
  number :: jsstring

text \<open>
  The loop of \<^verbatim>\<open>processBatch\<close>, with the array built so far. An exception of the hash
  function or a rejected promise leaves the function at once. \<^verbatim>\<open>fileContent[i]\<close> beyond the end is \<^verbatim>\<open>undefined\<close>, and calling
  \<^verbatim>\<open>replace\<close> on it throws.
\<close>

function processBatch_loop ::
  "env \<Rightarrow> variant \<Rightarrow> jsstring list \<Rightarrow> jsstring \<Rightarrow> nat \<Rightarrow> nat \<Rightarrow> QRCodeData list
     \<Rightarrow> exn + QRCodeData list" where
  "processBatch_loop E v fc pw i endIndex batchQRCodes =
     (if i < endIndex then
        (if i < length fc then
           (let number' = removeWhiteSpace (fc ! i)
            in case generateHash E v number' pw of
                 Inl e \<Rightarrow> Inl e
               | Inr hash \<Rightarrow>
                   (let url' = js ''https://check.vant.plus/'' @ number' @ js ''-'' @ hash
                    in case generateQRCode E url' of
                         Inl e \<Rightarrow> Inl e
                       | Inr qrDataUrl' \<Rightarrow>
                           processBatch_loop E v fc pw (i + 1) endIndex
                             (batchQRCodes @
                              [\<lparr>url = url', qrDataUrl = qrDataUrl', number = number'\<rparr>])))
         else Inl undefinedReplace)
      else Inr batchQRCodes)"
  by pat_completeness auto
termination
  by (relation "measure (\<lambda>(E, v, fc, pw, i, endIndex, batchQRCodes). endIndex - i)") auto

definition processBatch ::
  "env \<Rightarrow> variant \<Rightarrow> jsstring list \<Rightarrow> jsstring \<Rightarrow> nat \<Rightarrow> nat \<Rightarrow> exn + QRCodeData list" where
  "processBatch E v fc pw startIndex endIndex =
     processBatch_loop E v fc pw startIndex endIndex []"

subsection \<open>\<^verbatim>\<open>parseInt\<close> and \<^verbatim>\<open>Array.prototype.sort\<close>\<close>

text \<open>
  The Number values that \<^verbatim>\<open>parseInt\<close> and the subtraction of two of its results can
  give: NaN, the infinities, and the integers that are IEEE 754 doubles. (The two zeros
  are one value here: the comparison function is only tested for its sign.)
\<close>

datatype jsnumber = NaN | Finite int | PosInf | NegInf

fun bit_length :: "nat \<Rightarrow> nat" where
  "bit_length n = (if n = 0 then 0 else Suc (bit_length (n div 2)))"

text \<open>The first power of two that is too large for a finite double.\<close>

definition doubleOverflow :: nat where
  "doubleOverflow = 2 ^ 1024"

text \<open>
  The Number value of an integer: the nearest double, ties to the even significand of 53
  bits, and an infinity when that reaches \<open>2 ^ 1024\<close>.
\<close>

definition roundToDouble :: "int \<Rightarrow> jsnumber" where
  "roundToDouble x =
     (let n = nat \<bar>x\<bar>;
          e = bit_length n - 53;
          q = n div 2 ^ e;
          r = n mod 2 ^ e;
          q' = (if 2 * r > 2 ^ e \<or> (2 * r = 2 ^ e \<and> odd q) then q + 1 else q);
          m = q' * 2 ^ e
      in if m \<ge> doubleOverflow then (if x < 0 then NegInf else PosInf)
         else Finite (if x < 0 then - int m else int m))"

definition digitValue :: "jschar \<Rightarrow> nat" where
  "digitValue c =
     (if 0x30 \<le> c \<and> c \<le> 0x39 then unat c - 0x30
      else if 0x61 \<le> c \<and> c \<le> 0x7A then unat c - 0x61 + 10
      else if 0x41 \<le> c \<and> c \<le> 0x5A then unat c - 0x41 + 10
      else 36)"

definition isRadixDigit :: "nat \<Rightarrow> jschar \<Rightarrow> bool" where
  "isRadixDigit R c \<longleftrightarrow> digitValue c < R"

definition radixValue :: "nat \<Rightarrow> jsstring \<Rightarrow> nat" where
  "radixValue R Z = foldl (\<lambda>acc c. acc * R + digitValue c) 0 Z"

text \<open>
  \<^verbatim>\<open>parseInt(string)\<close> with no radix: leading white space is skipped, a sign is read, a
  prefix \<^verbatim>\<open>0x\<close> selects radix 16, and the longest prefix of digits is the value; with no
  digit the result is NaN. (Beyond 20 significant digits the standard lets an
  implementation replace further digits by zeros; the model keeps them.)
\<close>

definition parseInt :: "jsstring \<Rightarrow> jsnumber" where
  "parseInt string =
     (let S0 = dropWhile isWhiteSpace string;
          negative = (S0 \<noteq> [] \<and> hd S0 = 0x2D);
          S1 = (if S0 \<noteq> [] \<and> (hd S0 = 0x2B \<or> hd S0 = 0x2D) then tl S0 else S0);
          hex = (take 2 S1 = js ''0x'' \<or> take 2 S1 = js ''0X'');
          R = (if hex then 16 else 10);
          S2 = (if hex then drop 2 S1 else S1);
          Z = takeWhile (isRadixDigit R) S2
      in if Z = [] then NaN
         else roundToDouble (if negative then - int (radixValue R Z) else int (radixValue R Z)))"

text \<open>The subtraction of two Number values.\<close>

fun js_minus :: "jsnumber \<Rightarrow> jsnumber \<Rightarrow> jsnumber" where
  "js_minus NaN y = NaN"
| "js_minus x NaN = NaN"
| "js_minus (Finite a) (Finite b) = roundToDouble (a - b)"
| "js_minus (Finite a) PosInf = NegInf"
| "js_minus (Finite a) NegInf = PosInf"
| "js_minus PosInf PosInf = NaN"
| "js_minus PosInf y = PosInf"
| "js_minus NegInf NegInf = NaN"
| "js_minus NegInf y = NegInf"

text \<open>
  \<^verbatim>\<open>sort\<close> looks at the sign of what the comparison function returns, and takes NaN for
  zero: \<open>x\<close> goes behind \<open>y\<close> exactly when the result is positive.
\<close>

fun isPositive :: "jsnumber \<Rightarrow> bool" where
  "isPositive (Finite a) = (a > 0)"
| "isPositive PosInf = True"
| "isPositive NaN = False"
| "isPositive NegInf = False"

text \<open>
  \<^verbatim>\<open>Array.prototype.sort\<close> is stable. For a consistent comparison function the standard
  fixes its result: the elements in ascending order, equal elements in their old order.
  That is the result of inserting each element, from the last to the first, in front of
  the first element it does not have to follow. (For an inconsistent comparison function
  the order is left to the implementation; the records of this program never give one.)
\<close>

fun sort_insert :: "('a \<Rightarrow> 'a \<Rightarrow> jsnumber) \<Rightarrow> 'a \<Rightarrow> 'a list \<Rightarrow> 'a list" where
  "sort_insert cmp x [] = [x]"
| "sort_insert cmp x (y # ys) =
     (if isPositive (cmp x y) then y # sort_insert cmp x ys else x # y # ys)"

definition array_sort :: "('a \<Rightarrow> 'a \<Rightarrow> jsnumber) \<Rightarrow> 'a list \<Rightarrow> 'a list" where
  "array_sort cmp xs = foldr (sort_insert cmp) xs []"

subsection \<open>\<^verbatim>\<open>downloadBatch\<close>\<close>

definition BATCH_SIZE :: nat where
  "BATCH_SIZE = 2000"

definition BATCH_DELAY :: nat where
  "BATCH_DELAY = 10000"

text \<open>\<^verbatim>\<open>qrCode.qrDataUrl.replace(/^data:image\/png;base64,/, "")\<close>\<close>

definition stripDataUriPrefix :: "jsstring \<Rightarrow> jsstring" where
  "stripDataUriPrefix s =
     (let p = js ''data:image/png;base64,''
      in if take (length p) s = p then drop (length p) s else s)"

text \<open>The name given to \<^verbatim>\<open>folder.file\<close>: the one line of the function that differs.\<close>

definition imageFileName :: "variant \<Rightarrow> QRCodeData \<Rightarrow> jsstring" where
  "imageFileName v qrCode =
     (case v of
        FixedSecret \<Rightarrow> number qrCode @ js ''.png''
      | UserSecret \<Rightarrow> js ''qrcode_'' @ number qrCode @ js ''.png'')"

definition compareQRCodes :: "QRCodeData \<Rightarrow> QRCodeData \<Rightarrow> jsnumber" where
  "compareQRCodes a b = js_minus (parseInt (number a)) (parseInt (number b))"

definition folderNameOf :: "nat \<Rightarrow> nat \<Rightarrow> jsstring" where
  "folderNameOf start endN = js ''QR Codes '' @ numToString start @ js '' - '' @ numToString endN"

text \<open>
  The result has three parts: the exception thrown, if any; the contents of the caller's
  array \<open>qrCodes\<close> when the function is left (\<^verbatim>\<open>sort\<close> works in place and returns the
  same array); and the events. The link is clicked only after \<^verbatim>\<open>generateAsync\<close> has
  resolved. The function calls no setter of the component state.
\<close>

definition downloadBatch ::
  "env \<Rightarrow> variant \<Rightarrow> QRCodeData list \<Rightarrow> nat \<Rightarrow> nat \<Rightarrow> nat
     \<Rightarrow> exn option \<times> QRCodeData list \<times> event list" where
  "downloadBatch E v qrCodes batchNumber start endN =
     (let folderName = folderNameOf start endN
      in if folder_is_null E folderName
         then (Some (Error (js ''Erro ao criar pasta ZIP'')), qrCodes, [])
         else
           (let (folder, files0) = zip_folder folderName [];
                sortedQRCodes = array_sort compareQRCodes qrCodes;
                files =
                  fold (\<lambda>qrCode. folder_file folder (imageFileName v qrCode)
                                      (stripDataUriPrefix (qrDataUrl qrCode)))
                       sortedQRCodes files0
            in case generateAsync E files of
                 Some e \<Rightarrow> (Some e, sortedQRCodes, [])
               | None \<Rightarrow>
                   (None, sortedQRCodes, [Download (folderName @ js ''.zip'') files])))"

subsection \<open>\<^verbatim>\<open>generateAndDownloadQRCodes\<close>\<close>

definition batchMessage :: "string \<Rightarrow> nat \<Rightarrow> nat \<Rightarrow> nat \<Rightarrow> nat \<Rightarrow> jsstring" where
  "batchMessage verb batchNumber totalBatches displayStart displayEnd =
     js verb @ js '' lote '' @ numToString (batchNumber + 1) @ js ''/'' @
     numToString totalBatches @ js '': c'' @ [0xF3] @ js ''digos '' @
     numToString displayStart @ js '' at'' @ [0xE9] @ js '' '' @ numToString displayEnd"

definition waitMessage :: "nat \<Rightarrow> jsstring" where
  "waitMessage batchNumber =
     js ''Lote '' @ numToString (batchNumber + 1) @ js '' conclu'' @ [0xED] @
     js ''do. Aguardando 10 segundos antes do pr'' @ [0xF3] @ js ''ximo lote...''"

definition doneMessage :: "nat \<Rightarrow> nat \<Rightarrow> jsstring" where
  "doneMessage totalItems totalBatches =
     js ''Processamento conclu'' @ [0xED] @ js ''do. Todos os '' @ numToString totalItems @
     js '' QR codes foram gerados e baixados em '' @ numToString totalBatches @ js '' lotes.''"

text \<open>
  \<^verbatim>\<open>Math.ceil(totalItems / BATCH_SIZE)\<close>. An array has fewer than \<open>2 ^ 32\<close> elements, and
  for such a length the double quotient is below the next integer by at least
  \<open>1 / 2000\<close> when it is not an integer, far more than a rounding error: the result is
  the ceiling of the exact quotient.
\<close>

definition Math_ceil_div :: "nat \<Rightarrow> nat \<Rightarrow> nat" where
  "Math_ceil_div a b = (if a mod b = 0 then a div b else a div b + 1)"

text \<open>
  The \<^verbatim>\<open>for\<close> loop over the batches. It yields the exception that left the loop, if any,
  the component state, and the events so far. \<open>fc\<close> and \<open>pw\<close> are the \<^verbatim>\<open>fileContent\<close>
  and \<^verbatim>\<open>password\<close> of the render in which the button was clicked: the closure keeps
  them for the whole run.
\<close>

function batch_loop ::
  "env \<Rightarrow> variant \<Rightarrow> jsstring list \<Rightarrow> jsstring \<Rightarrow> nat \<Rightarrow> nat \<Rightarrow> nat
     \<Rightarrow> app_state \<Rightarrow> event list \<Rightarrow> exn option \<times> app_state \<times> event list" where
  "batch_loop E v fc pw totalItems totalBatches batchNumber st evs =
     (if batchNumber < totalBatches then
        (let startIndex = batchNumber * BATCH_SIZE;
             endIndex = min (startIndex + BATCH_SIZE) totalItems;
             displayStart = startIndex + 1;
             displayEnd = endIndex;
             st1 = st\<lparr>currentBatch := Some (displayStart, displayEnd),
                      debugInfo := batchMessage ''Processando'' batchNumber totalBatches
                                     displayStart displayEnd\<rparr>
         in case processBatch E v fc pw startIndex endIndex of
              Inl e \<Rightarrow> (Some e, st1, evs)
            | Inr batchQRCodes \<Rightarrow>
                (let st2 = st1\<lparr>debugInfo := batchMessage ''Baixando'' batchNumber totalBatches
                                                displayStart displayEnd\<rparr>
                 in case downloadBatch E v batchQRCodes (batchNumber + 1)
                           displayStart displayEnd of
                      (Some e, qrCodes', devs) \<Rightarrow> (Some e, st2, evs @ devs)
                    | (None, qrCodes', devs) \<Rightarrow>
                        (if batchNumber < totalBatches - 1
                         then batch_loop E v fc pw totalItems totalBatches (batchNumber + 1)
                                (st2\<lparr>debugInfo := waitMessage batchNumber\<rparr>)
                                (evs @ devs @ [Delay BATCH_DELAY])
                         else batch_loop E v fc pw totalItems totalBatches (batchNumber + 1)
                                st2 (evs @ devs))))
      else (None, st, evs))"
  by pat_completeness auto
termination
  by (relation "measure (\<lambda>(E, v, fc, pw, totalItems, totalBatches, batchNumber, st, evs).
                           totalBatches - batchNumber)") auto

definition generateAndDownloadQRCodes ::
  "env \<Rightarrow> variant \<Rightarrow> app_state \<Rightarrow> event list \<Rightarrow> app_state \<times> event list" where
  "generateAndDownloadQRCodes E v st evs =
     (if v = UserSecret \<and> password st = []
      then (st\<lparr>error := js ''Por favor, digite uma senha para gerar os QR codes''\<rparr>, evs)
      else if length (fileContent st) = 0
      then (st\<lparr>error := js ''Por favor, carregue um arquivo primeiro''\<rparr>, evs)
      else
        (let st0 = st\<lparr>isProcessing := True, error := []\<rparr>;
             totalItems = length (fileContent st);
             totalBatches = Math_ceil_div totalItems BATCH_SIZE
         in case batch_loop E v (fileContent st) (password st) totalItems totalBatches 0
                   st0 evs of
              (None, st', evs') \<Rightarrow>
                (st'\<lparr>debugInfo := doneMessage totalItems totalBatches,
                     currentBatch := None,
                     isProcessing := False\<rparr>, evs')
            | (Some e, st', evs') \<Rightarrow>
                (st'\<lparr>error := js ''Erro ao gerar ou baixar QR codes'',
                     isProcessing := False\<rparr>, evs' @ [ConsoleError e])))"

subsection \<open>Notions derived from the code, for the statements\<close>

text \<open>The URL that \<^verbatim>\<open>processBatch\<close> builds from an identifier and its digest.\<close>

definition qrUrl :: "jsstring \<Rightarrow> jsstring \<Rightarrow> jsstring" where
  "qrUrl ident hash = js ''https://check.vant.plus/'' @ ident @ js ''-'' @ hash"

text \<open>\<open>r\<close> is the record that \<^verbatim>\<open>processBatch\<close> pushes for the stored line \<open>line\<close>.\<close>

definition producedFrom :: "env \<Rightarrow> variant \<Rightarrow> jsstring \<Rightarrow> jsstring \<Rightarrow> QRCodeData \<Rightarrow> bool" where
  "producedFrom E v pw line r \<longleftrightarrow>
     number r = removeWhiteSpace line \<and>
     (case generateHash E v (number r) pw of
        Inl e \<Rightarrow> False
      | Inr hash \<Rightarrow> url r = qrUrl (number r) hash) \<and>
     toDataURL E (url r) = Inr (qrDataUrl r)"

text \<open>
  What pass \<open>batchNumber\<close> of the loop of \<^verbatim>\<open>generateAndDownloadQRCodes\<close> does, apart from
  the component state: the exception that \<^verbatim>\<open>processBatch\<close> or \<^verbatim>\<open>downloadBatch\<close> throws, or
  the events of \<^verbatim>\<open>downloadBatch\<close>.
\<close>

definition batchOutcome ::
  "env \<Rightarrow> variant \<Rightarrow> jsstring list \<Rightarrow> jsstring \<Rightarrow> nat \<Rightarrow> nat \<Rightarrow> exn + event list" where
  "batchOutcome E v fc pw totalItems batchNumber =
     (let startIndex = batchNumber * BATCH_SIZE;
          endIndex = min (startIndex + BATCH_SIZE) totalItems
      in case processBatch E v fc pw startIndex endIndex of
           Inl e \<Rightarrow> Inl e
         | Inr batchQRCodes \<Rightarrow>
             (case downloadBatch E v batchQRCodes (batchNumber + 1) (startIndex + 1) endIndex of
                (Some e, qrCodes', devs) \<Rightarrow> Inl e
              | (None, qrCodes', devs) \<Rightarrow> Inr devs))"

text \<open>The events of a pass that succeeds, with the timer that follows it.\<close>

definition batchEvents ::
  "env \<Rightarrow> variant \<Rightarrow> jsstring list \<Rightarrow> jsstring \<Rightarrow> nat \<Rightarrow> nat \<Rightarrow> nat \<Rightarrow> event list" where
  "batchEvents E v fc pw totalItems totalBatches batchNumber =
     (case batchOutcome E v fc pw totalItems batchNumber of
        Inl e \<Rightarrow> []
      | Inr devs \<Rightarrow>
          devs @ (if batchNumber < totalBatches - 1 then [Delay BATCH_DELAY] else []))"

fun isDownload :: "event \<Rightarrow> bool" where
  "isDownload (Download name files) = True"
| "isDownload (Delay ms) = False"
| "isDownload (ConsoleError e) = False"

text \<open>The order \<open>\<le>\<close> of Number values; nothing is below or above NaN.\<close>

fun numberLE :: "jsnumber \<Rightarrow> jsnumber \<Rightarrow> bool" where
  "numberLE NaN y = False"
| "numberLE x NaN = False"
| "numberLE NegInf y = True"
| "numberLE x PosInf = True"
| "numberLE (Finite a) (Finite b) = (a \<le> b)"
| "numberLE (Finite a) NegInf = False"
| "numberLE PosInf y = False"

text \<open>
  The place of a Number value on the integer line, with the infinities just outside the
  finite doubles. It is used in proofs only, to compare with the sorting of the library.
\<close>

fun rank :: "jsnumber \<Rightarrow> int" where
  "rank (Finite a) = a"
| "rank PosInf = int doubleOverflow"
| "rank NegInf = - int doubleOverflow"
| "rank NaN = 0"

text \<open>
  The archive after \<^verbatim>\<open>zip.folder\<close> and the calls of \<^verbatim>\<open>folder.file\<close> for the records \<open>qs\<close>, in
  the order of \<open>qs\<close>: the \<^verbatim>\<open>forEach\<close> of \<^verbatim>\<open>downloadBatch\<close>.
\<close>

definition archiveOf :: "variant \<Rightarrow> nat \<Rightarrow> nat \<Rightarrow> QRCodeData list \<Rightarrow> archive" where
  "archiveOf v start endN qs =
     fold (\<lambda>qrCode. folder_file (folderNameOf start endN @ js ''/'') (imageFileName v qrCode)
                       (stripDataUriPrefix (qrDataUrl qrCode)))
          qs [(folderNameOf start endN @ js ''/'', Dir)]"

subsection \<open>The first render, and an environment for the examples\<close>

text \<open>The initial values given to \<^verbatim>\<open>useState\<close>.\<close>

definition initialState :: app_state where
  "initialState =
     \<lparr>error = [], debugInfo = [], password = [], fileContent = [],
      isProcessing = False, currentBatch = None\<rparr>"

text \<open>
  The theorems below hold for every environment. Where an example needs one, it uses
  this: no library call fails, the digest of every string is \<^verbatim>\<open>h\<close>, and the image of a
  URL is the URL itself behind the data-URI prefix.
\<close>

definition exampleEnv :: env where
  "exampleEnv =
     \<lparr>SHA256 = (\<lambda>s. Inr (js ''h'')),
      toDataURL = (\<lambda>u. Inr (js ''data:image/png;base64,'' @ u)),
      folder_is_null = (\<lambda>name. False),
      generateAsync = (\<lambda>files. None)\<rparr>"

text \<open>A component with a password and three lines loaded, and a QR library that fails.\<close>

definition exampleState :: app_state where
  "exampleState = initialState\<lparr>password := js ''p'', fileContent := [js ''1'', js ''2'', js ''3'']\<rparr>"

definition failingEnv :: env where
  "failingEnv = exampleEnv\<lparr>toDataURL := (\<lambda>u. Inl (Error (js ''no image'')))\<rparr>"

text \<open>Records for the examples: two records with the identifier 9.\<close>

definition record9 :: QRCodeData where
  "record9 = \<lparr>url = js ''u9'', qrDataUrl = js ''data:image/png;base64,OQ=='', number = js ''9''\<rparr>"

definition record9b :: QRCodeData where
  "record9b = \<lparr>url = js ''u9'', qrDataUrl = js ''data:image/png;base64,WA=='', number = js ''9''\<rparr>"

text \<open>
  The recursive equations of the loops are unfolded by hand in the proofs.
\<close>

declare processBatch_loop.simps [simp del] batch_loop.simps [simp del]
  numToString.simps [simp del] bit_length.simps [simp del]

section \<open>Properties\<close>

subsection \<open>The parser\<close>

lemma removeWhiteSpace_trim_nonempty:
  assumes "trim s \<noteq> []"
  shows "removeWhiteSpace (trim s) \<noteq> []"
proof -
  let ?t = "dropWhile isWhiteSpace (rev (dropWhile isWhiteSpace s))"
  from assms have ne: "?t \<noteq> []" by (simp add: trim_def)
  then have "\<not> isWhiteSpace (hd ?t)" by (rule hd_dropWhile)
  moreover from ne have "hd ?t \<in> set (trim s)" by (simp add: trim_def)
  ultimately show ?thesis
    by (auto simp: removeWhiteSpace_def filter_empty_conv)
qed

lemma fileLines_not_blank:
  "line \<in> set (fileLines text) \<Longrightarrow> removeWhiteSpace line \<noteq> []"
  by (auto simp: fileLines_def removeWhiteSpace_trim_nonempty)

lemma fileLines_allDigits_iff:
  "line \<in> set (fileLines text) \<Longrightarrow>
     allDigits (removeWhiteSpace line) \<longleftrightarrow> list_all isDigit (removeWhiteSpace line)"
  by (simp add: allDigits_def fileLines_not_blank)

lemma validateLines_None_iff:
  "validateLines ls = None \<longleftrightarrow> (\<forall>l\<in>set ls. allDigits (removeWhiteSpace l))"
  by (induction ls) (auto simp: Let_def)

lemma validateLines_Some:
  "validateLines ls = Some e \<Longrightarrow>
     \<exists>bad. List.find (\<lambda>l. \<not> allDigits (removeWhiteSpace l)) ls = Some bad \<and>
           e = Error (invalidLineMessage bad)"
  by (induction ls) (auto simp: Let_def split: if_splits)

lemma find_cong_set:
  "(\<And>x. x \<in> set xs \<Longrightarrow> P x = Q x) \<Longrightarrow> List.find P xs = List.find Q xs"
  by (induction xs) auto

text \<open>
  C4. When some trimmed non-empty line of the uploaded text still has a character that is
  not a digit after its white space is removed, the upload is rejected as a whole: the
  error shown is the message that quotes the first such line, as trimmed, and the stored
  list of lines is empty.
\<close>

theorem upload_rejects_invalid_line:
  assumes "\<exists>line\<in>set (fileLines text). \<not> list_all isDigit (removeWhiteSpace line)"
  shows "\<exists>bad. List.find (\<lambda>line. \<not> list_all isDigit (removeWhiteSpace line)) (fileLines text)
                  = Some bad \<and>
               error (handleFileUpload (Some text) st)
                  = js ''Linha cont'' @ [0xE9] @ js ''m caracteres inv'' @ [0xE1] @ js ''lidos: ''
                      @ [0x22] @ bad @ [0x22] \<and>
               fileContent (handleFileUpload (Some text) st) = []"
proof -
  from assms have "\<not> (\<forall>l\<in>set (fileLines text). allDigits (removeWhiteSpace l))"
    by (auto simp: allDigits_def)
  then obtain e where e: "validateLines (fileLines text) = Some e"
    using validateLines_None_iff [of "fileLines text"]
    by (cases "validateLines (fileLines text)") auto
  from validateLines_Some [OF e] obtain bad where
    bad: "List.find (\<lambda>l. \<not> allDigits (removeWhiteSpace l)) (fileLines text) = Some bad"
    and msg: "e = Error (invalidLineMessage bad)" by blast
  have "List.find (\<lambda>line. \<not> list_all isDigit (removeWhiteSpace line)) (fileLines text)
          = List.find (\<lambda>l. \<not> allDigits (removeWhiteSpace l)) (fileLines text)"
    by (rule find_cong_set) (simp add: fileLines_allDigits_iff)
  with bad e msg show ?thesis
    by (simp add: handleFileUpload_def Let_def invalidLineMessage_def)
qed

theorem upload_rejects_invalid_line_witness:
  "(\<exists>line\<in>set (fileLines (js ''1 2a'')). \<not> list_all isDigit (removeWhiteSpace line)) \<and>
   (\<exists>bad. List.find (\<lambda>line. \<not> list_all isDigit (removeWhiteSpace line))
             (fileLines (js ''1 2a'')) = Some bad \<and>
          error (handleFileUpload (Some (js ''1 2a'')) initialState)
             = js ''Linha cont'' @ [0xE9] @ js ''m caracteres inv'' @ [0xE1] @ js ''lidos: ''
                 @ [0x22] @ bad @ [0x22] \<and>
          fileContent (handleFileUpload (Some (js ''1 2a'')) initialState) = [])"
proof -
  have h: "\<exists>line\<in>set (fileLines (js ''1 2a'')). \<not> list_all isDigit (removeWhiteSpace line)"
    by (simp add: fileLines_def js_def trim_def isWhiteSpace_def removeWhiteSpace_def
        isDigit_def)
  from h upload_rejects_invalid_line [OF h, of initialState] show ?thesis by blast
qed

lemma processBatch_loop_Inr:
  "processBatch_loop E v fc pw i e acc = Inr recs \<Longrightarrow> e \<le> length fc \<Longrightarrow>
     \<exists>new. recs = acc @ new \<and> list_all2 (producedFrom E v pw) (take (e - i) (drop i fc)) new"
proof (induction E v fc pw i e acc rule: processBatch_loop.induct)
  case (1 E v fc pw i endIndex batchQRCodes)
  show ?case
  proof (cases "i < endIndex")
    case False
    with "1.prems" show ?thesis
      by (simp add: processBatch_loop.simps [of E v fc pw i endIndex batchQRCodes])
  next
    case True
    with "1.prems" have len: "i < length fc" by simp
    let ?n = "removeWhiteSpace (fc ! i)"
    from "1.prems"(1) True len obtain h q where
      h: "generateHash E v ?n pw = Inr h"
      and q: "generateQRCode E (js ''https://check.vant.plus/'' @ ?n @ js ''-'' @ h) = Inr q"
      and rec: "processBatch_loop E v fc pw (i + 1) endIndex
                  (batchQRCodes @ [\<lparr>url = js ''https://check.vant.plus/'' @ ?n @ js ''-'' @ h,
                                    qrDataUrl = q, number = ?n\<rparr>]) = Inr recs"
      by (simp add: processBatch_loop.simps [of E v fc pw i endIndex batchQRCodes]
          Let_def split: sum.splits)
    let ?r = "\<lparr>url = js ''https://check.vant.plus/'' @ ?n @ js ''-'' @ h, qrDataUrl = q, number = ?n\<rparr>"
    from "1.IH" [OF True len refl h refl q rec "1.prems"(2)]
    obtain new where new: "recs = (batchQRCodes @ [?r]) @ new"
      and all: "list_all2 (producedFrom E v pw) (take (endIndex - (i + 1)) (drop (i + 1) fc)) new"
      by blast
    have slice: "take (endIndex - i) (drop i fc) = fc ! i # take (endIndex - (i + 1)) (drop (i + 1) fc)"
      using True len
      by (simp add: take_Suc_conv_app_nth Cons_nth_drop_Suc [symmetric] Suc_diff_Suc [symmetric]
          del: Suc_diff_Suc)
    have "producedFrom E v pw (fc ! i) ?r"
      using h q by (simp add: producedFrom_def qrUrl_def generateQRCode_def)
    with new all slice show ?thesis by simp
  qed
qed

lemma processBatch_Inr:
  "processBatch E v fc pw s e = Inr recs \<Longrightarrow> e \<le> length fc \<Longrightarrow>
     list_all2 (producedFrom E v pw) (take (e - s) (drop s fc)) recs"
  using processBatch_loop_Inr [of E v fc pw s e "[]" recs] by (auto simp: processBatch_def)

lemma producedFrom_numbers:
  "list_all2 (producedFrom E v pw) ls recs \<Longrightarrow> map number recs = map removeWhiteSpace ls"
  by (induction ls recs rule: list_all2_induct) (auto simp: producedFrom_def)

lemma processBatch_loop_total:
  "\<forall>s. \<exists>h. SHA256 E s = Inr h \<Longrightarrow> \<forall>u. \<exists>q. toDataURL E u = Inr q \<Longrightarrow> e \<le> length fc \<Longrightarrow>
     \<exists>recs. processBatch_loop E v fc pw i e acc = Inr recs"
proof (induction E v fc pw i e acc rule: processBatch_loop.induct)
  case (1 E v fc pw i endIndex batchQRCodes)
  show ?case
  proof (cases "i < endIndex")
    case False
    then show ?thesis
      by (simp add: processBatch_loop.simps [of E v fc pw i endIndex batchQRCodes])
  next
    case True
    with "1.prems" have len: "i < length fc" by simp
    let ?n = "removeWhiteSpace (fc ! i)"
    from "1.prems"(1) obtain h where h: "generateHash E v ?n pw = Inr h"
      unfolding generateHash_def Let_def by blast
    from "1.prems"(2) obtain q where
      q: "generateQRCode E (js ''https://check.vant.plus/'' @ ?n @ js ''-'' @ h) = Inr q"
      unfolding generateQRCode_def by blast
    from "1.IH" [OF True len refl h refl q "1.prems"]
    have "\<exists>recs. processBatch_loop E v fc pw (i + 1) endIndex
             (batchQRCodes @ [\<lparr>url = js ''https://check.vant.plus/'' @ ?n @ js ''-'' @ h,
                               qrDataUrl = q, number = ?n\<rparr>]) = Inr recs" .
    with True len h q show ?thesis
      by (simp add: processBatch_loop.simps [of E v fc pw i endIndex batchQRCodes] Let_def)
  qed
qed

text \<open>
  C2 (as amended). When every trimmed non-empty line of the uploaded text is made of digits
  once its white space is removed, the upload is accepted: the stored list is exactly the
  trimmed non-empty lines in their order, white space inside a line included, and no error
  is shown. The identifier without white space is formed later: it is the \<open>number\<close> of the
  record that \<^verbatim>\<open>processBatch\<close> builds from the stored line.
\<close>

theorem upload_stores_trimmed_lines:
  assumes "\<forall>line\<in>set (fileLines text). allDigits (removeWhiteSpace line)"
  shows "fileContent (handleFileUpload (Some text) st) = fileLines text \<and>
         error (handleFileUpload (Some text) st) = [] \<and>
         (\<forall>E v pw recs.
            processBatch E v (fileContent (handleFileUpload (Some text) st)) pw 0
              (length (fileLines text)) = Inr recs \<longrightarrow>
            map number recs = map removeWhiteSpace (fileLines text))"
proof -
  from assms have ok: "validateLines (fileLines text) = None"
    by (simp add: validateLines_None_iff)
  then have fc: "fileContent (handleFileUpload (Some text) st) = fileLines text"
    and err: "error (handleFileUpload (Some text) st) = []"
    by (simp_all add: handleFileUpload_def Let_def)
  have "map number recs = map removeWhiteSpace (fileLines text)"
    if "processBatch E v (fileLines text) pw 0 (length (fileLines text)) = Inr recs"
    for E v pw recs
    using processBatch_Inr [OF that] by (simp add: producedFrom_numbers)
  with fc err show ?thesis by simp
qed

theorem upload_stores_trimmed_lines_witness:
  "list_all (\<lambda>line. allDigits (removeWhiteSpace line)) (fileLines (js ''1 2'')) \<and>
   fileContent (handleFileUpload (Some (js ''1 2'')) initialState) = fileLines (js ''1 2'') \<and>
   error (handleFileUpload (Some (js ''1 2'')) initialState) = [] \<and>
   (\<exists>recs.
      processBatch exampleEnv FixedSecret
        (fileContent (handleFileUpload (Some (js ''1 2'')) initialState)) [] 0
        (length (fileLines (js ''1 2''))) = Inr recs \<and>
      map number recs = map removeWhiteSpace (fileLines (js ''1 2'')))"
proof -
  let ?st = "handleFileUpload (Some (js ''1 2'')) initialState"
  have h: "\<forall>line\<in>set (fileLines (js ''1 2'')). allDigits (removeWhiteSpace line)"
    by (simp add: fileLines_def js_def trim_def isWhiteSpace_def removeWhiteSpace_def
        isDigit_def allDigits_def)
  note inst = upload_stores_trimmed_lines [OF h, of initialState]
  from inst have fc: "fileContent ?st = fileLines (js ''1 2'')" by blast
  have hs: "\<forall>s. \<exists>h. SHA256 exampleEnv s = Inr h" by (simp add: exampleEnv_def)
  have "\<forall>u. \<exists>q. toDataURL exampleEnv u = Inr q" by (simp add: exampleEnv_def)
  from processBatch_loop_total [OF hs this, of "length (fileLines (js ''1 2''))" "fileContent ?st"
      FixedSecret "[]" 0 "[]"]
  obtain recs where recs: "processBatch exampleEnv FixedSecret (fileContent ?st) [] 0
      (length (fileLines (js ''1 2''))) = Inr recs"
    by (auto simp: processBatch_def fc)
  with inst have "map number recs = map removeWhiteSpace (fileLines (js ''1 2''))" by blast
  with h inst recs show ?thesis by (auto simp: list_all_iff)
qed

text \<open>
  The file with the single line \<^verbatim>\<open>1 2\<close> is accepted and stored as \<^verbatim>\<open>1 2\<close>, not as \<^verbatim>\<open>12\<close>.
\<close>

theorem upload_keeps_inner_white_space:
  "list_all (\<lambda>line. allDigits (removeWhiteSpace line)) (fileLines (js ''1 2'')) \<and>
   fileContent (handleFileUpload (Some (js ''1 2'')) initialState) = [js ''1 2''] \<and>
   map removeWhiteSpace (fileLines (js ''1 2'')) = [js ''12''] \<and>
   fileContent (handleFileUpload (Some (js ''1 2'')) initialState)
     \<noteq> map removeWhiteSpace (fileLines (js ''1 2''))"
  by (simp add: handleFileUpload_def initialState_def fileLines_def js_def trim_def
      isWhiteSpace_def removeWhiteSpace_def isDigit_def allDigits_def)

subsection \<open>The run\<close>

lemma downloadBatch_failure_events:
  "downloadBatch E v qrCodes bn s e = (Some x, qs, devs) \<Longrightarrow> devs = []"
  by (auto simp: downloadBatch_def Let_def split: if_splits prod.splits option.splits)


lemma upt_cons_concat:
  "b < j \<Longrightarrow> concat (map f [b..<j]) = f b @ concat (map f [Suc b..<j])"
  by (simp add: upt_conv_Cons)

lemma batch_loop_trace:
  "batch_loop E v fc pw N T b st evs = (r, st', evs') \<Longrightarrow>
     \<exists>j. b \<le> j \<and> j \<le> max b T \<and>
         (\<forall>k. b \<le> k \<and> k < j \<longrightarrow> (\<exists>d. batchOutcome E v fc pw N k = Inr d)) \<and>
         evs' = evs @ concat (map (batchEvents E v fc pw N T) [b..<j]) \<and>
         (r = None \<longrightarrow> T \<le> j) \<and>
         (\<forall>e. r = Some e \<longrightarrow> j < T \<and> batchOutcome E v fc pw N j = Inl e)"
proof (induction E v fc pw N T b st evs arbitrary: r st' evs' rule: batch_loop.induct)
  case (1 E v fc pw totalItems totalBatches batchNumber st evs)
  let ?lo = "batchNumber * BATCH_SIZE"
  let ?hi = "min (?lo + BATCH_SIZE) totalItems"
  let ?st1 = "st\<lparr>currentBatch := Some (?lo + 1, ?hi),
                 debugInfo := batchMessage ''Processando'' batchNumber totalBatches (?lo + 1) ?hi\<rparr>"
  let ?st2 = "?st1\<lparr>debugInfo := batchMessage ''Baixando'' batchNumber totalBatches (?lo + 1) ?hi\<rparr>"
  note unfold = batch_loop.simps [of E v fc pw totalItems totalBatches batchNumber st evs]
  show ?case
  proof (cases "batchNumber < totalBatches")
    case False
    with "1.prems" have "r = None" "evs' = evs" by (simp_all add: unfold)
    with False show ?thesis by (intro exI [of _ batchNumber]) auto
  next
    case lt: True
    show ?thesis
    proof (cases "processBatch E v fc pw ?lo ?hi")
      case (Inl e)
      with "1.prems" lt have "r = Some e" "evs' = evs" by (simp_all add: unfold Let_def)
      moreover from Inl have "batchOutcome E v fc pw totalItems batchNumber = Inl e"
        by (simp add: batchOutcome_def Let_def)
      ultimately show ?thesis using lt by (intro exI [of _ batchNumber]) auto
    next
      case (Inr recs)
      obtain x qs devs where db:
        "downloadBatch E v recs (batchNumber + 1) (?lo + 1) ?hi = (x, qs, devs)"
        by (cases "downloadBatch E v recs (batchNumber + 1) (?lo + 1) ?hi") auto
      show ?thesis
      proof (cases x)
        case (Some e)
        with db have "devs = []" by (simp add: downloadBatch_failure_events)
        with "1.prems" lt Inr db Some have "r = Some e" "evs' = evs"
          by (simp_all add: unfold Let_def)
        moreover from Inr db Some have "batchOutcome E v fc pw totalItems batchNumber = Inl e"
          by (simp add: batchOutcome_def Let_def)
        ultimately show ?thesis using lt by (intro exI [of _ batchNumber]) auto
      next
        case None
        from Inr db None have out: "batchOutcome E v fc pw totalItems batchNumber = Inr devs"
          by (simp add: batchOutcome_def Let_def)
        then have bev: "batchEvents E v fc pw totalItems totalBatches batchNumber =
            devs @ (if batchNumber < totalBatches - 1 then [Delay BATCH_DELAY] else [])"
          by (simp add: batchEvents_def)
        have "\<exists>j. batchNumber + 1 \<le> j \<and> j \<le> max (batchNumber + 1) totalBatches \<and>
           (\<forall>k. batchNumber + 1 \<le> k \<and> k < j \<longrightarrow> (\<exists>d. batchOutcome E v fc pw totalItems k = Inr d)) \<and>
           evs' = (evs @ batchEvents E v fc pw totalItems totalBatches batchNumber) @
                  concat (map (batchEvents E v fc pw totalItems totalBatches) [batchNumber + 1..<j]) \<and>
           (r = None \<longrightarrow> totalBatches \<le> j) \<and>
           (\<forall>e. r = Some e \<longrightarrow> j < totalBatches \<and> batchOutcome E v fc pw totalItems j = Inl e)"
        proof (cases "batchNumber < totalBatches - 1")
          case True
          have "batch_loop E v fc pw totalItems totalBatches (batchNumber + 1)
                  (?st2\<lparr>debugInfo := waitMessage batchNumber\<rparr>)
                  (evs @ devs @ [Delay BATCH_DELAY]) = (r, st', evs')"
            using "1.prems" lt Inr db None True by (simp add: unfold Let_def)
          from "1.IH"(1) [OF lt refl refl refl refl refl Inr refl db [symmetric] _ _ True this]
          show ?thesis using None bev True by simp
        next
          case False
          have "batch_loop E v fc pw totalItems totalBatches (batchNumber + 1) ?st2
                  (evs @ devs) = (r, st', evs')"
            using "1.prems" lt Inr db None False by (simp add: unfold Let_def)
          from "1.IH"(2) [OF lt refl refl refl refl refl Inr refl db [symmetric] _ _ False this]
          show ?thesis using None bev False by simp
        qed
        then obtain j where j: "batchNumber + 1 \<le> j" "j \<le> max (batchNumber + 1) totalBatches"
          "\<forall>k. batchNumber + 1 \<le> k \<and> k < j \<longrightarrow> (\<exists>d. batchOutcome E v fc pw totalItems k = Inr d)"
          "evs' = (evs @ batchEvents E v fc pw totalItems totalBatches batchNumber) @
                  concat (map (batchEvents E v fc pw totalItems totalBatches) [batchNumber + 1..<j])"
          "r = None \<longrightarrow> totalBatches \<le> j"
          "\<forall>e. r = Some e \<longrightarrow> j < totalBatches \<and> batchOutcome E v fc pw totalItems j = Inl e"
          by blast
        have "\<forall>k. batchNumber \<le> k \<and> k < j \<longrightarrow> (\<exists>d. batchOutcome E v fc pw totalItems k = Inr d)"
        proof (intro allI impI)
          fix k assume "batchNumber \<le> k \<and> k < j"
          then consider "k = batchNumber" | "batchNumber + 1 \<le> k \<and> k < j" by linarith
          then show "\<exists>d. batchOutcome E v fc pw totalItems k = Inr d"
            using out j(3) by cases auto
        qed
        moreover have "evs' = evs @ concat (map (batchEvents E v fc pw totalItems totalBatches) [batchNumber..<j])"
          using j(1,4) by (simp add: upt_cons_concat [of batchNumber j])
        ultimately show ?thesis using j(1,2,5,6) lt
          by (intro exI [of _ j]) auto
      qed
    qed
  qed
qed

text \<open>\<open>Math_ceil_div\<close> is the ceiling of the quotient.\<close>

lemma Math_ceil_div_real:
  assumes "0 < b"
  shows "Math_ceil_div a b = nat \<lceil>real a / real b\<rceil>"
proof (cases "a mod b = 0")
  case True
  then have "b dvd a" by (simp add: dvd_eq_mod_eq_0)
  then have "real a / real b = real (a div b)" by (simp add: real_of_nat_div)
  with True show ?thesis by (simp add: Math_ceil_div_def)
next
  case False
  have eq: "real a = real (a div b) * real b + real (a mod b)"
    by (metis div_mult_mod_eq of_nat_add of_nat_mult)
  have b: "0 < real b" using assms by simp
  from False have pos: "0 < real (a mod b)" by simp
  have lt: "real (a mod b) < real b" using assms by simp
  have "real (a div b) * real b < real a" using eq pos by linarith
  then have lo: "of_int (int (a div b)) < real a / real b"
    using b by (simp add: pos_less_divide_eq)
  have "real a \<le> (real (a div b) + 1) * real b" using eq lt by (simp add: algebra_simps)
  then have hi: "real a / real b \<le> of_int (int (a div b)) + 1"
    using b by (simp add: pos_divide_le_eq)
  from lo hi have "\<lceil>real a / real b\<rceil> = int (a div b) + 1" by (rule ceiling_eq)
  with False show ?thesis by (simp add: Math_ceil_div_def)
qed

lemma ceil_cover: 
  assumes "0 < b" shows "a \<le> Math_ceil_div a b * b"
proof -
  define q r where "q = a div b" and "r = a mod b"
  have eq: "a = q * b + r" by (simp add: q_def r_def)
  have r: "r < b" using assms by (simp add: r_def)
  have m: "Math_ceil_div a b = (if r = 0 then q else q + 1)"
    by (simp add: Math_ceil_div_def q_def r_def)
  show ?thesis using eq r unfolding m by (cases "r = 0") (simp_all add: algebra_simps)
qed

lemma ceil_tight:
  assumes "0 < b" "0 < a" shows "(Math_ceil_div a b - 1) * b < a"
proof -
  define q r where "q = a div b" and "r = a mod b"
  have eq: "a = q * b + r" by (simp add: q_def r_def)
  have m: "Math_ceil_div a b = (if r = 0 then q else q + 1)"
    by (simp add: Math_ceil_div_def q_def r_def)
  show ?thesis
  proof (cases "r = 0")
    case True
    with eq assms have "0 < q" by (cases q) simp_all
    then have "(q - 1) * b < q * b" using assms by simp
    with True eq show ?thesis unfolding m by simp
  next
    case False
    with eq show ?thesis unfolding m by simp
  qed
qed


lemma chunk_step:
  "take (n * B) xs @ take (min (n * B + B) (length xs) - n * B) (drop (n * B) xs)
     = take (Suc n * B) xs"
  by (metis add.commute append_take_drop_id diff_add_inverse length_drop
      min.cobounded1 min_def mult_Suc take_add take_all_iff)

lemma chunks_concat:
  "concat (map (\<lambda>k. take (min (k * B + B) (length xs) - k * B) (drop (k * B) xs)) [0..<n])
     = take (n * B) xs"
proof (induction n)
  case 0
  show ?case by simp
next
  case (Suc n)
  then show ?case using chunk_step [of n B xs] by simp
qed

lemma batch_loop_state:
  "batch_loop E v fc pw N T b st evs = (r, st', evs') \<Longrightarrow>
     fileContent st' = fileContent st \<and> password st' = password st \<and>
     error st' = error st \<and> isProcessing st' = isProcessing st"
proof (induction E v fc pw N T b st evs arbitrary: r st' evs' rule: batch_loop.induct)
  case (1 E v fc pw totalItems totalBatches batchNumber st evs)
  let ?lo = "batchNumber * BATCH_SIZE"
  let ?hi = "min (?lo + BATCH_SIZE) totalItems"
  let ?st1 = "st\<lparr>currentBatch := Some (?lo + 1, ?hi),
                 debugInfo := batchMessage ''Processando'' batchNumber totalBatches (?lo + 1) ?hi\<rparr>"
  let ?st2 = "?st1\<lparr>debugInfo := batchMessage ''Baixando'' batchNumber totalBatches (?lo + 1) ?hi\<rparr>"
  note unfold = batch_loop.simps [of E v fc pw totalItems totalBatches batchNumber st evs]
  show ?case
  proof (cases "batchNumber < totalBatches")
    case False
    with "1.prems" show ?thesis by (simp add: unfold)
  next
    case lt: True
    show ?thesis
    proof (cases "processBatch E v fc pw ?lo ?hi")
      case (Inl e)
      with "1.prems" lt show ?thesis by (auto simp: unfold Let_def)
    next
      case (Inr recs)
      obtain x qs devs where db:
        "downloadBatch E v recs (batchNumber + 1) (?lo + 1) ?hi = (x, qs, devs)"
        by (cases "downloadBatch E v recs (batchNumber + 1) (?lo + 1) ?hi") auto
      show ?thesis
      proof (cases x)
        case (Some e)
        with "1.prems" lt Inr db show ?thesis by (auto simp: unfold Let_def)
      next
        case None
        show ?thesis
        proof (cases "batchNumber < totalBatches - 1")
          case True
          have "batch_loop E v fc pw totalItems totalBatches (batchNumber + 1)
                  (?st2\<lparr>debugInfo := waitMessage batchNumber\<rparr>)
                  (evs @ devs @ [Delay BATCH_DELAY]) = (r, st', evs')"
            using "1.prems" lt Inr db None True by (simp add: unfold Let_def)
          from "1.IH"(1) [OF lt refl refl refl refl refl Inr refl db [symmetric] _ _ True this]
          show ?thesis using None by simp
        next
          case False
          have "batch_loop E v fc pw totalItems totalBatches (batchNumber + 1) ?st2
                  (evs @ devs) = (r, st', evs')"
            using "1.prems" lt Inr db None False by (simp add: unfold Let_def)
          from "1.IH"(2) [OF lt refl refl refl refl refl Inr refl db [symmetric] _ _ False this]
          show ?thesis using None by simp
        qed
      qed
    qed
  qed
qed

lemma downloadBatch_success:
  assumes "\<not> folder_is_null E (folderNameOf s e)" and "\<forall>files. generateAsync E files = None"
  shows "\<exists>qs devs. downloadBatch E v qrCodes bn s e = (None, qs, devs)"
  using assms by (simp add: downloadBatch_def Let_def split: prod.splits)

lemma batchOutcome_success:
  assumes hsh: "\<forall>s. \<exists>h. SHA256 E s = Inr h"
    and enc: "\<forall>u. \<exists>q. toDataURL E u = Inr q"
    and fol: "\<forall>name. \<not> folder_is_null E name"
    and gen: "\<forall>files. generateAsync E files = None"
  shows "\<exists>recs. processBatch E v fc pw (k * BATCH_SIZE) (min (k * BATCH_SIZE + BATCH_SIZE) (length fc))
            = Inr recs \<and>
          batchOutcome E v fc pw (length fc) k =
            Inr (snd (snd (downloadBatch E v recs (k + 1) (k * BATCH_SIZE + 1)
                             (min (k * BATCH_SIZE + BATCH_SIZE) (length fc)))))"
proof -
  let ?lo = "k * BATCH_SIZE" and ?hi = "min (k * BATCH_SIZE + BATCH_SIZE) (length fc)"
  have "?hi \<le> length fc" by simp
  from processBatch_loop_total [OF hsh enc this, of v pw ?lo "[]"]
  obtain recs where recs: "processBatch E v fc pw ?lo ?hi = Inr recs"
    by (auto simp: processBatch_def)
  have "\<exists>qs devs. downloadBatch E v recs (k + 1) (?lo + 1) ?hi = (None, qs, devs)"
    using fol gen by (intro downloadBatch_success) auto
  then obtain qs devs where "downloadBatch E v recs (k + 1) (?lo + 1) ?hi = (None, qs, devs)"
    by blast
  with recs show ?thesis by (simp add: batchOutcome_def Let_def)
qed

lemma downloadBatch_success_events:
  "downloadBatch E v qrCodes bn s e = (None, qs, devs) \<Longrightarrow>
     \<exists>files. devs = [Download (folderNameOf s e @ js ''.zip'') files]"
  by (auto simp: downloadBatch_def Let_def split: if_splits prod.splits option.splits)

lemma batchOutcome_Inr_pass:
  assumes "batchOutcome E v fc pw N k = Inr d"
  shows "\<exists>recs. processBatch E v fc pw (k * BATCH_SIZE) (min (k * BATCH_SIZE + BATCH_SIZE) N)
            = Inr recs \<and>
          d = snd (snd (downloadBatch E v recs (k + 1) (k * BATCH_SIZE + 1)
                          (min (k * BATCH_SIZE + BATCH_SIZE) N)))"
  using assms
  by (auto simp: batchOutcome_def Let_def split: sum.splits prod.splits option.splits)

lemma batchOutcome_Inr_events:
  "batchOutcome E v fc pw N k = Inr d \<Longrightarrow> \<exists>name files. d = [Download name files]"
  by (auto simp: batchOutcome_def Let_def split: sum.splits prod.splits option.splits
      dest: downloadBatch_success_events)

lemma batchEvents_downloads:
  "batchOutcome E v fc pw N k = Inr d \<Longrightarrow>
     length (filter isDownload (batchEvents E v fc pw N T k)) = 1"
  by (auto simp: batchEvents_def dest!: batchOutcome_Inr_events)

lemma count_downloads:
  "(\<And>k. k < j \<Longrightarrow> \<exists>d. batchOutcome E v fc pw N k = Inr d) \<Longrightarrow>
     length (filter isDownload (concat (map (batchEvents E v fc pw N T) [0..<j]))) = j"
proof (induction j)
  case 0
  show ?case by simp
next
  case (Suc j)
  from Suc.prems [of j] obtain d where "batchOutcome E v fc pw N j = Inr d" by auto
  then have "length (filter isDownload (batchEvents E v fc pw N T j)) = 1"
    by (rule batchEvents_downloads)
  moreover have "length (filter isDownload (concat (map (batchEvents E v fc pw N T) [0..<j]))) = j"
    using Suc.prems by (intro Suc.IH) auto
  ultimately show ?case by simp
qed

lemma run_unfold:
  assumes "fileContent st \<noteq> []" and "v = UserSecret \<longrightarrow> password st \<noteq> []"
    and "batch_loop E v (fileContent st) (password st) (length (fileContent st))
           (Math_ceil_div (length (fileContent st)) BATCH_SIZE) 0
           (st\<lparr>isProcessing := True, error := []\<rparr>) evs = (r, st', evs')"
  shows "generateAndDownloadQRCodes E v st evs =
           (case r of
              None \<Rightarrow>
                (st'\<lparr>debugInfo := doneMessage (length (fileContent st))
                                     (Math_ceil_div (length (fileContent st)) BATCH_SIZE),
                     currentBatch := None, isProcessing := False\<rparr>, evs')
            | Some e \<Rightarrow>
                (st'\<lparr>error := js ''Erro ao gerar ou baixar QR codes'', isProcessing := False\<rparr>,
                 evs' @ [ConsoleError e]))"
  using assms by (auto simp: generateAndDownloadQRCodes_def Let_def split: option.splits)

text \<open>
  C1. Let the loaded list have \<open>N > 0\<close> lines and let none of the \<open>\<lceil>N / 2000\<rceil>\<close> passes of
  this run throw (nothing is asked of the libraries on other inputs). Then the run
  makes exactly \<open>\<lceil>N / 2000\<rceil>\<close> batches. Batch \<open>k\<close> (from 0) is the result of \<^verbatim>\<open>processBatch\<close>
  on the indices \<open>k * 2000\<close> to \<open>min ((k + 1) * 2000) N - 1\<close>, and its identifiers are those
  lines, in their order, without white space. The batches put one after the other give
  the whole list: every line is in exactly one batch. The events of the run are the
  downloads of the batches in their order, batch \<open>k\<close> with the display range from
  \<open>k * 2000 + 1\<close> to \<open>min ((k + 1) * 2000) N\<close>, with a timer of 10 seconds between two
  batches. The ranges are not empty, each starts one after the end of the one before, the
  first starts at 1 and the last ends at \<open>N\<close>. The run ends with no error shown.
\<close>

theorem run_partitions_into_batches:
  assumes fc: "fc = fileContent st" and pw: "pw = password st" and N: "N = length fc"
    and pos: "0 < N"
    and pwd: "v = UserSecret \<longrightarrow> pw \<noteq> []"
    and ok: "\<forall>k < nat \<lceil>real N / 2000\<rceil>. \<exists>d. batchOutcome E v fc pw N k = Inr d"
  shows "\<exists>batches.
           length batches = nat \<lceil>real N / 2000\<rceil> \<and>
           (\<forall>k<length batches.
              processBatch E v fc pw (k * 2000) (min ((k + 1) * 2000) N) = Inr (batches ! k) \<and>
              map number (batches ! k) =
                map removeWhiteSpace (take (min ((k + 1) * 2000) N - k * 2000) (drop (k * 2000) fc)) \<and>
              k * 2000 + 1 \<le> min ((k + 1) * 2000) N \<and>
              (k + 1 < length batches \<longrightarrow> min ((k + 1) * 2000) N = (k + 1) * 2000) \<and>
              (k + 1 = length batches \<longrightarrow> min ((k + 1) * 2000) N = N)) \<and>
           concat (map (map number) batches) = map removeWhiteSpace fc \<and>
           snd (generateAndDownloadQRCodes E v st evs) =
             evs @ concat (map (\<lambda>k. snd (snd (downloadBatch E v (batches ! k) (k + 1)
                                                (k * 2000 + 1) (min ((k + 1) * 2000) N))) @
                                      (if k + 1 < length batches then [Delay 10000] else []))
                            [0..<length batches]) \<and>
           error (fst (generateAndDownloadQRCodes E v st evs)) = []"
proof -
  define T where "T = Math_ceil_div N BATCH_SIZE"
  define lo where "lo = (\<lambda>k. k * BATCH_SIZE)"
  define hi where "hi = (\<lambda>k. min (k * BATCH_SIZE + BATCH_SIZE) N)"
  define R where "R = (\<lambda>k. projr (processBatch E v fc pw (lo k) (hi k)))"
  define D where "D = (\<lambda>k. snd (snd (downloadBatch E v (R k) (k + 1) (lo k + 1) (hi k))))"
  define batches where "batches = map R [0..<T]"
  have len: "length batches = T" by (simp add: batches_def)
  have nth: "batches ! k = R k" if "k < T" for k using that by (simp add: batches_def)
  have T_real: "T = nat \<lceil>real N / 2000\<rceil>"
    using Math_ceil_div_real [of BATCH_SIZE N] by (simp add: T_def BATCH_SIZE_def)
  have cover: "N \<le> T * BATCH_SIZE"
    unfolding T_def by (rule ceil_cover) (simp add: BATCH_SIZE_def)
  have tight: "(T - 1) * BATCH_SIZE < N"
    unfolding T_def using pos by (intro ceil_tight) (simp_all add: BATCH_SIZE_def)
  have out: "processBatch E v fc pw (lo k) (hi k) = Inr (R k) \<and>
             batchOutcome E v fc pw N k = Inr (D k)" if "k < T" for k
  proof -
    from ok that obtain d where d: "batchOutcome E v fc pw N k = Inr d"
      unfolding T_real by blast
    from d batchOutcome_Inr_pass [OF d] show ?thesis
      by (auto simp: R_def D_def lo_def hi_def)
  qed
  have numbers: "map number (R k) = map removeWhiteSpace (take (hi k - lo k) (drop (lo k) fc))"
    if "k < T" for k
  proof -
    have "hi k \<le> length fc" by (simp add: hi_def N)
    from processBatch_Inr [OF out [OF that, THEN conjunct1] this] show ?thesis
      by (rule producedFrom_numbers)
  qed
  have bounds: "lo k + 1 \<le> hi k \<and> (k + 1 < T \<longrightarrow> hi k = lo (k + 1)) \<and> (k + 1 = T \<longrightarrow> hi k = N)"
    if "k < T" for k
  proof -
    from that have "k \<le> T - 1" by arith
    then have "k * BATCH_SIZE \<le> (T - 1) * BATCH_SIZE" by (rule mult_le_mono1)
    with tight have a: "lo k < N" unfolding lo_def by linarith
    have b: "lo k + 1 \<le> hi k" using a by (simp add: lo_def hi_def BATCH_SIZE_def)
    have c: "hi k = lo (k + 1)" if "k + 1 < T"
    proof -
      from that have "k + 1 \<le> T - 1" by arith
      then have "(k + 1) * BATCH_SIZE \<le> (T - 1) * BATCH_SIZE" by (rule mult_le_mono1)
      with tight have "(k + 1) * BATCH_SIZE < N" by linarith
      then show ?thesis by (simp add: lo_def hi_def)
    qed
    have d: "hi k = N" if "k + 1 = T"
      using cover that [symmetric] by (simp add: hi_def)
    from b c d show ?thesis by blast
  qed
  have parts: "concat (map (map number) batches) = map removeWhiteSpace fc"
  proof -
    have same: "map (\<lambda>k. map number (R k)) [0..<T] =
            map (\<lambda>k. map removeWhiteSpace (take (hi k - lo k) (drop (lo k) fc))) [0..<T]"
      by (rule map_cong [OF refl]) (simp add: numbers)
    have "map (map number) batches = map (\<lambda>k. map number (R k)) [0..<T]"
      by (simp add: batches_def comp_def)
    with same have "concat (map (map number) batches) =
            concat (map (\<lambda>k. map removeWhiteSpace (take (hi k - lo k) (drop (lo k) fc))) [0..<T])"
      by (simp only:)
    also have "\<dots> = map removeWhiteSpace
            (concat (map (\<lambda>k. take (hi k - lo k) (drop (lo k) fc)) [0..<T]))"
      by (simp add: map_concat comp_def)
    also have "concat (map (\<lambda>k. take (hi k - lo k) (drop (lo k) fc)) [0..<T])
                 = take (T * BATCH_SIZE) fc"
      unfolding hi_def lo_def N by (rule chunks_concat)
    also have "\<dots> = fc" using cover by (simp add: N)
    finally show ?thesis .
  qed
  obtain r st' evs' where loop:
    "batch_loop E v fc pw N T 0 (st\<lparr>isProcessing := True, error := []\<rparr>) evs = (r, st', evs')"
    by (metis prod_cases3)
  from batch_loop_trace [OF loop] obtain j where j: "j \<le> T"
    and ev: "evs' = evs @ concat (map (batchEvents E v fc pw N T) [0..<j])"
    and rN: "r = None \<longrightarrow> T \<le> j"
    and rS: "\<forall>e. r = Some e \<longrightarrow> j < T \<and> batchOutcome E v fc pw N j = Inl e"
    by auto
  have r: "r = None"
  proof (cases r)
    case (Some e)
    with rS have "j < T" and "batchOutcome E v fc pw N j = Inl e" by simp_all
    with out [of j] show ?thesis by simp
  qed simp
  with rN j have jT: "j = T" by simp
  have bev: "batchEvents E v fc pw N T k = D k @ (if k + 1 < T then [Delay 10000] else [])"
    if "k < T" for k
    using out [OF that] by (auto simp: batchEvents_def BATCH_DELAY_def)
  have run: "generateAndDownloadQRCodes E v st evs =
               (st'\<lparr>debugInfo := doneMessage N T, currentBatch := None, isProcessing := False\<rparr>, evs')"
    using run_unfold [of st v E evs r st' evs'] loop pos pwd r
    by (simp add: fc pw N T_def)
  have err: "error (fst (generateAndDownloadQRCodes E v st evs)) = []"
    using batch_loop_state [OF loop] by (simp add: run)
  have evs: "snd (generateAndDownloadQRCodes E v st evs) =
      evs @ concat (map (\<lambda>k. snd (snd (downloadBatch E v (batches ! k) (k + 1)
                                         (k * 2000 + 1) (min ((k + 1) * 2000) N))) @
                               (if k + 1 < length batches then [Delay 10000] else []))
                     [0..<length batches])"
  proof -
    have "map (batchEvents E v fc pw N T) [0..<T] =
          map (\<lambda>k. snd (snd (downloadBatch E v (batches ! k) (k + 1)
                                 (k * 2000 + 1) (min ((k + 1) * 2000) N))) @
                    (if k + 1 < length batches then [Delay 10000] else [])) [0..<T]"
      by (rule map_cong [OF refl])
         (simp add: bev D_def nth len lo_def hi_def BATCH_SIZE_def add.commute)
    with ev jT show ?thesis by (simp add: run len)
  qed
  have each: "\<forall>k<length batches.
      processBatch E v fc pw (k * 2000) (min ((k + 1) * 2000) N) = Inr (batches ! k) \<and>
      map number (batches ! k) =
        map removeWhiteSpace (take (min ((k + 1) * 2000) N - k * 2000) (drop (k * 2000) fc)) \<and>
      k * 2000 + 1 \<le> min ((k + 1) * 2000) N \<and>
      (k + 1 < length batches \<longrightarrow> min ((k + 1) * 2000) N = (k + 1) * 2000) \<and>
      (k + 1 = length batches \<longrightarrow> min ((k + 1) * 2000) N = N)"
  proof (intro allI impI)
    fix k assume "k < length batches"
    then have k: "k < T" by (simp add: len)
    from out [OF k] numbers [OF k] bounds [OF k] nth [OF k] cover
    show "processBatch E v fc pw (k * 2000) (min ((k + 1) * 2000) N) = Inr (batches ! k) \<and>
      map number (batches ! k) =
        map removeWhiteSpace (take (min ((k + 1) * 2000) N - k * 2000) (drop (k * 2000) fc)) \<and>
      k * 2000 + 1 \<le> min ((k + 1) * 2000) N \<and>
      (k + 1 < length batches \<longrightarrow> min ((k + 1) * 2000) N = (k + 1) * 2000) \<and>
      (k + 1 = length batches \<longrightarrow> min ((k + 1) * 2000) N = N)"
      by (auto simp: lo_def hi_def BATCH_SIZE_def len add.commute)
  qed
  from len T_real each parts evs err show ?thesis
    by (intro exI [of _ batches]) simp
qed

theorem run_partitions_into_batches_witness:
  "0 < length (replicate 2001 (js ''7'')) \<and> js ''p'' \<noteq> [] \<and>
   nat \<lceil>real 2001 / 2000\<rceil> = 2 \<and>
   (\<exists>d. batchOutcome exampleEnv UserSecret (replicate 2001 (js ''7'')) (js ''p'') 2001 0 = Inr d) \<and>
   (\<exists>d. batchOutcome exampleEnv UserSecret (replicate 2001 (js ''7'')) (js ''p'') 2001 1 = Inr d) \<and>
   (\<exists>batches.
      length batches = nat \<lceil>real 2001 / 2000\<rceil> \<and>
      (\<forall>k<length batches.
         processBatch exampleEnv UserSecret (replicate 2001 (js ''7'')) (js ''p'') (k * 2000)
           (min ((k + 1) * 2000) 2001) = Inr (batches ! k) \<and>
         map number (batches ! k) =
           map removeWhiteSpace
             (take (min ((k + 1) * 2000) 2001 - k * 2000)
                (drop (k * 2000) (replicate 2001 (js ''7'')))) \<and>
         k * 2000 + 1 \<le> min ((k + 1) * 2000) 2001 \<and>
         (k + 1 < length batches \<longrightarrow> min ((k + 1) * 2000) 2001 = (k + 1) * 2000) \<and>
         (k + 1 = length batches \<longrightarrow> min ((k + 1) * 2000) 2001 = 2001)) \<and>
      concat (map (map number) batches) = map removeWhiteSpace (replicate 2001 (js ''7'')) \<and>
      snd (generateAndDownloadQRCodes exampleEnv UserSecret
             (initialState\<lparr>password := js ''p'', fileContent := replicate 2001 (js ''7'')\<rparr>) []) =
        [] @ concat (map (\<lambda>k. snd (snd (downloadBatch exampleEnv UserSecret (batches ! k) (k + 1)
                                           (k * 2000 + 1) (min ((k + 1) * 2000) 2001))) @
                                 (if k + 1 < length batches then [Delay 10000] else []))
                       [0..<length batches]) \<and>
      error (fst (generateAndDownloadQRCodes exampleEnv UserSecret
             (initialState\<lparr>password := js ''p'', fileContent := replicate 2001 (js ''7'')\<rparr>) [])) = [])"
proof -
  let ?st = "initialState\<lparr>password := js ''p'', fileContent := replicate 2001 (js ''7'')\<rparr>"
  have a: "replicate 2001 (js ''7'') = fileContent ?st" by simp
  have b: "js ''p'' = password ?st" by simp
  have c: "(2001::nat) = length (replicate 2001 (js ''7''))" by simp
  have d: "0 < (2001::nat)" by simp
  have e: "UserSecret = UserSecret \<longrightarrow> js ''p'' \<noteq> []" by (simp add: js_def)
  have s: "\<forall>s. \<exists>h. SHA256 exampleEnv s = Inr h" by (simp add: exampleEnv_def)
  have f: "\<forall>u. \<exists>q. toDataURL exampleEnv u = Inr q" by (simp add: exampleEnv_def)
  have g: "\<forall>name. \<not> folder_is_null exampleEnv name" by (simp add: exampleEnv_def)
  have h: "\<forall>files. generateAsync exampleEnv files = None" by (simp add: exampleEnv_def)
  have pass: "\<exists>d. batchOutcome exampleEnv UserSecret (replicate 2001 (js ''7'')) (js ''p'') 2001 k
                  = Inr d" for k
    using batchOutcome_success [OF s f g h, of UserSecret "replicate 2001 (js ''7'')" "js ''p''" k]
    by auto
  have T: "nat \<lceil>real 2001 / 2000\<rceil> = 2" by simp
  have ok: "\<forall>k < nat \<lceil>real 2001 / 2000\<rceil>.
              \<exists>d. batchOutcome exampleEnv UserSecret (replicate 2001 (js ''7'')) (js ''p'') 2001 k
                    = Inr d"
    using pass by blast
  from e T pass [of 0] pass [of 1] run_partitions_into_batches [OF a b c d e ok, of "[]"]
  show ?thesis by simp
qed

text \<open>
  C7. When some pass of the loop throws (in \<^verbatim>\<open>processBatch\<close>, that is in hashing or encoding,
  or in \<^verbatim>\<open>downloadBatch\<close>), the run stops at the first such pass \<open>j\<close>: the events are those
  of the passes before \<open>j\<close>, which stay, followed by one \<^verbatim>\<open>console.error\<close> with the exception;
  exactly \<open>j\<close> downloads have been added; the error shown is the fixed text, whatever the
  exception; the component is no longer processing and the loaded lines are unchanged.
\<close>

theorem failed_run_aborts:
  assumes fc: "fc = fileContent st" and pw: "pw = password st" and N: "N = length fc"
    and T: "T = Math_ceil_div N BATCH_SIZE"
    and pos: "fc \<noteq> []"
    and pwd: "v = UserSecret \<longrightarrow> pw \<noteq> []"
    and fail: "\<exists>k<T. \<exists>e. batchOutcome E v fc pw N k = Inl e"
  shows "\<exists>j<T. \<exists>e.
           (\<forall>k<j. \<exists>d. batchOutcome E v fc pw N k = Inr d) \<and>
           batchOutcome E v fc pw N j = Inl e \<and>
           snd (generateAndDownloadQRCodes E v st evs) =
             evs @ concat (map (batchEvents E v fc pw N T) [0..<j]) @ [ConsoleError e] \<and>
           length (filter isDownload (snd (generateAndDownloadQRCodes E v st evs))) =
             length (filter isDownload evs) + j \<and>
           error (fst (generateAndDownloadQRCodes E v st evs)) =
             js ''Erro ao gerar ou baixar QR codes'' \<and>
           isProcessing (fst (generateAndDownloadQRCodes E v st evs)) = False \<and>
           fileContent (fst (generateAndDownloadQRCodes E v st evs)) = fc"
proof -
  obtain r st' evs' where loop:
    "batch_loop E v fc pw N T 0 (st\<lparr>isProcessing := True, error := []\<rparr>) evs = (r, st', evs')"
    by (metis prod_cases3)
  from batch_loop_trace [OF loop] obtain j where j: "j \<le> T"
    and ok: "\<forall>k<j. \<exists>d. batchOutcome E v fc pw N k = Inr d"
    and ev: "evs' = evs @ concat (map (batchEvents E v fc pw N T) [0..<j])"
    and rN: "r = None \<longrightarrow> T \<le> j"
    and rS: "\<forall>e. r = Some e \<longrightarrow> j < T \<and> batchOutcome E v fc pw N j = Inl e"
    by auto
  from fail obtain k x where k: "k < T" "batchOutcome E v fc pw N k = Inl x" by blast
  have "r \<noteq> None"
  proof
    assume "r = None"
    with rN j k(1) have "k < j" by simp
    with ok k(2) show False by auto
  qed
  then obtain e where r: "r = Some e" by auto
  with rS have jT: "j < T" and out: "batchOutcome E v fc pw N j = Inl e" by auto
  have run: "generateAndDownloadQRCodes E v st evs =
               (st'\<lparr>error := js ''Erro ao gerar ou baixar QR codes'', isProcessing := False\<rparr>,
                evs' @ [ConsoleError e])"
    using run_unfold [of st v E evs r st' evs'] loop pos pwd r
    by (simp add: fc pw N T)
  have cnt: "length (filter isDownload (concat (map (batchEvents E v fc pw N T) [0..<j]))) = j"
    using ok by (intro count_downloads) auto
  have "fileContent st' = fc" using batch_loop_state [OF loop] by (simp add: fc)
  with jT ok out ev cnt show ?thesis
    by (intro exI [of _ j] conjI exI [of _ e]) (simp_all add: run)
qed

theorem failed_run_aborts_witness:
  "fileContent exampleState \<noteq> [] \<and> password exampleState \<noteq> [] \<and>
   (\<exists>j<Math_ceil_div (length (fileContent exampleState)) BATCH_SIZE. \<exists>e.
      (\<forall>k<j. \<exists>d. batchOutcome failingEnv UserSecret (fileContent exampleState)
                      (password exampleState) (length (fileContent exampleState)) k = Inr d) \<and>
      batchOutcome failingEnv UserSecret (fileContent exampleState) (password exampleState)
        (length (fileContent exampleState)) j = Inl e \<and>
      snd (generateAndDownloadQRCodes failingEnv UserSecret exampleState []) =
        [] @ concat (map (batchEvents failingEnv UserSecret (fileContent exampleState)
                            (password exampleState) (length (fileContent exampleState))
                            (Math_ceil_div (length (fileContent exampleState)) BATCH_SIZE))
                       [0..<j]) @ [ConsoleError e] \<and>
      length (filter isDownload (snd (generateAndDownloadQRCodes failingEnv UserSecret exampleState []))) =
        length (filter isDownload []) + j \<and>
      error (fst (generateAndDownloadQRCodes failingEnv UserSecret exampleState [])) =
        js ''Erro ao gerar ou baixar QR codes'' \<and>
      isProcessing (fst (generateAndDownloadQRCodes failingEnv UserSecret exampleState [])) = False \<and>
      fileContent (fst (generateAndDownloadQRCodes failingEnv UserSecret exampleState [])) =
        fileContent exampleState)"
proof -
  have a: "fileContent exampleState \<noteq> []" by (simp add: exampleState_def)
  have b: "password exampleState \<noteq> []" by (simp add: exampleState_def js_def)
  have T: "Math_ceil_div (length (fileContent exampleState)) BATCH_SIZE = 1"
    by (simp add: exampleState_def Math_ceil_div_def BATCH_SIZE_def)
  have "batchOutcome failingEnv UserSecret (fileContent exampleState) (password exampleState)
          (length (fileContent exampleState)) 0 = Inl (Error (js ''no image''))"
    by (simp add: batchOutcome_def processBatch_def exampleState_def BATCH_SIZE_def
        processBatch_loop.simps [of _ _ _ _ 0] generateQRCode_def generateHash_def
        failingEnv_def exampleEnv_def)
  then have c: "\<exists>k<Math_ceil_div (length (fileContent exampleState)) BATCH_SIZE. \<exists>e.
      batchOutcome failingEnv UserSecret (fileContent exampleState) (password exampleState)
        (length (fileContent exampleState)) k = Inl e"
    unfolding T by blast
  from a b failed_run_aborts [OF refl refl refl refl a _ c, of "[]"] show ?thesis
    by simp
qed

text \<open>
  C8. With no line loaded, or in the variant with a password with an empty password, the
  run only sets an error message: the events are unchanged, so no batch was processed, and
  the result does not depend on the libraries, so none was called.
\<close>

theorem run_refuses_missing_input:
  assumes "fileContent st = [] \<or> (v = UserSecret \<and> password st = [])"
  shows "generateAndDownloadQRCodes E v st evs =
           (st\<lparr>error :=
                 (if v = UserSecret \<and> password st = []
                  then js ''Por favor, digite uma senha para gerar os QR codes''
                  else js ''Por favor, carregue um arquivo primeiro'')\<rparr>, evs) \<and>
         error (fst (generateAndDownloadQRCodes E v st evs)) \<noteq> []"
  using assms by (auto simp: generateAndDownloadQRCodes_def js_def)

theorem run_refuses_missing_input_witness:
  "(fileContent initialState = [] \<or> (UserSecret = UserSecret \<and> password initialState = [])) \<and>
   generateAndDownloadQRCodes exampleEnv UserSecret initialState [] =
     (initialState\<lparr>error := js ''Por favor, digite uma senha para gerar os QR codes''\<rparr>, []) \<and>
   error (fst (generateAndDownloadQRCodes exampleEnv UserSecret initialState [])) \<noteq> []"
proof -
  have h: "fileContent initialState = [] \<or> (UserSecret = UserSecret \<and> password initialState = [])"
    by (simp add: initialState_def)
  from h run_refuses_missing_input [OF h, of exampleEnv "[]"] show ?thesis
    by (simp add: initialState_def js_def)
qed

subsection \<open>The digest\<close>

text \<open>
  C3 (as amended). The digest is what SHA-256 gives for the identifier followed directly
  by the secret: the password in the variant with a password, the built-in constant
  otherwise. It depends on nothing else, and two pairs with the same concatenation have
  the same digest. (\<open>generateHash\<close> is a function of its arguments: equal inputs give equal
  digests.)
\<close>

theorem digest_of_concatenation:
  "generateHash E UserSecret ident secret = SHA256 E (ident @ secret) \<and>
   generateHash E FixedSecret ident secret = SHA256 E (ident @ js ''VAPWHV'') \<and>
   (id1 @ s1 = id2 @ s2 \<longrightarrow>
      generateHash E UserSecret id1 s1 = generateHash E UserSecret id2 s2)"
  by (simp add: generateHash_def)

theorem digest_of_concatenation_witness:
  "\<forall>E. js ''1'' @ js ''23'' = js ''12'' @ js ''3'' \<and>
       generateHash E UserSecret (js ''1'') (js ''23'') = SHA256 E (js ''1'' @ js ''23'') \<and>
       generateHash E UserSecret (js ''1'') (js ''23'') =
         generateHash E UserSecret (js ''12'') (js ''3'')"
proof
  fix E
  have h: "js ''1'' @ js ''23'' = js ''12'' @ js ''3''" by (simp add: js_def)
  from h digest_of_concatenation [of E "js ''1''" "js ''23''" "js ''1''" "js ''23''" "js ''12''" "js ''3''"]
  show "js ''1'' @ js ''23'' = js ''12'' @ js ''3'' \<and>
       generateHash E UserSecret (js ''1'') (js ''23'') = SHA256 E (js ''1'' @ js ''23'') \<and>
       generateHash E UserSecret (js ''1'') (js ''23'') =
         generateHash E UserSecret (js ''12'') (js ''3'')"
    by blast
qed

text \<open>
  The identifier 1 with the secret 23 and the identifier 12 with the secret 3 have the
  same digest, whatever SHA-256 is: the digest is not one-to-one on pairs.
\<close>

theorem digest_not_one_to_one:
  "\<forall>E. generateHash E UserSecret (js ''1'') (js ''23'') =
         generateHash E UserSecret (js ''12'') (js ''3'') \<and>
       js ''1'' \<noteq> js ''12'' \<and> js ''23'' \<noteq> js ''3''"
  by (simp add: generateHash_def js_def)

subsection \<open>Number values and the sort\<close>

lemma bit_length_lower: "0 < n \<Longrightarrow> 2 ^ (bit_length n - 1) \<le> n"
proof (induction n rule: bit_length.induct)
  case (1 n)
  show ?case
  proof (cases "n div 2 = 0")
    case True
    with "1.prems" have "n = 1" by (cases n) auto
    then show ?thesis by (simp add: bit_length.simps [of "Suc 0"] bit_length.simps [of 0])
  next
    case False
    with "1.IH" "1.prems" have ih: "2 ^ (bit_length (n div 2) - 1) \<le> n div 2" by simp
    from False have "0 < bit_length (n div 2)" by (simp add: bit_length.simps [of "n div 2"])
    then have "bit_length n - 1 = Suc (bit_length (n div 2) - 1)"
      using "1.prems" by (simp add: bit_length.simps [of n])
    then have "(2::nat) ^ (bit_length n - 1) = 2 * 2 ^ (bit_length (n div 2) - 1)" by simp
    also have "\<dots> \<le> 2 * (n div 2)" using ih by simp
    also have "\<dots> \<le> n" by simp
    finally show ?thesis .
  qed
qed

lemma bit_length_upper: "n < 2 ^ k \<Longrightarrow> bit_length n \<le> k"
proof (induction n arbitrary: k rule: bit_length.induct)
  case (1 n)
  show ?case
  proof (cases "n = 0")
    case True
    then show ?thesis by (simp add: bit_length.simps [of 0])
  next
    case False
    with "1.prems" obtain k' where k: "k = Suc k'" by (cases k) auto
    with "1.prems" have "n div 2 < 2 ^ k'" by auto
    with "1.IH" False have "bit_length (n div 2) \<le> k'" by simp
    with False k show ?thesis by (simp add: bit_length.simps [of n])
  qed
qed

lemma bit_length_bound: "n < 2 ^ bit_length n"
proof (induction n rule: bit_length.induct)
  case (1 n)
  show ?case
  proof (cases "n = 0")
    case True
    then show ?thesis by simp
  next
    case False
    with "1.IH" have "n div 2 < 2 ^ bit_length (n div 2)" by simp
    then have "n < 2 * 2 ^ bit_length (n div 2)" by linarith
    with False show ?thesis by (simp add: bit_length.simps [of n])
  qed
qed

lemma bit_length_eq:
  assumes "2 ^ k \<le> n" and "n < 2 ^ Suc k"
  shows "bit_length n = Suc k"
proof -
  from assms(2) have up: "bit_length n \<le> Suc k" by (rule bit_length_upper)
  have "\<not> bit_length n \<le> k"
  proof
    assume "bit_length n \<le> k"
    then have "(2::nat) ^ bit_length n \<le> 2 ^ k" by (simp add: power_increasing)
    with bit_length_bound [of n] assms(1) show False by linarith
  qed
  with up show ?thesis by simp
qed

lemma roundToDouble_shape:
  obtains m where "0 < m \<longleftrightarrow> x \<noteq> 0"
    and "roundToDouble x =
           (if doubleOverflow \<le> m then (if x < 0 then NegInf else PosInf)
            else Finite (if x < 0 then - int m else int m))"
proof -
  define n where "n = nat \<bar>x\<bar>"
  define e where "e = bit_length n - 53"
  define q where "q = n div 2 ^ e"
  define r where "r = n mod 2 ^ e"
  define q' where "q' = (if 2 * r > 2 ^ e \<or> (2 * r = 2 ^ e \<and> odd q) then q + 1 else q)"
  define m where "m = q' * 2 ^ e"
  have val: "roundToDouble x =
           (if doubleOverflow \<le> m then (if x < 0 then NegInf else PosInf)
            else Finite (if x < 0 then - int m else int m))"
    unfolding roundToDouble_def Let_def m_def q'_def r_def q_def e_def n_def by (rule refl)
  have "0 < m \<longleftrightarrow> x \<noteq> 0"
  proof (cases "x = 0")
    case True
    then have "n = 0" by (simp add: n_def)
    then have "q = 0" "r = 0" by (simp_all add: q_def r_def)
    then have "q' = 0" by (simp add: q'_def)
    with True show ?thesis by (simp add: m_def)
  next
    case False
    then have n: "0 < n" by (simp add: n_def)
    have "(2::nat) ^ e \<le> 2 ^ (bit_length n - 1)"
      by (rule power_increasing) (simp_all add: e_def)
    also have "\<dots> \<le> n" using n by (rule bit_length_lower)
    finally have "0 < q" by (simp add: q_def div_greater_zero_iff)
    then have "0 < q'" by (simp add: q'_def)
    with False show ?thesis by (simp add: m_def)
  qed
  then show thesis using val by (rule that)
qed

lemma roundToDouble_exact:
  assumes "0 \<le> x" and "x < 2 ^ 53"
  shows "roundToDouble x = Finite x"
proof -
  from assms have small: "nat \<bar>x\<bar> < 2 ^ 53" by (simp add: nat_less_iff)
  then have "bit_length (nat \<bar>x\<bar>) - 53 = 0" using bit_length_upper [of "nat \<bar>x\<bar>" 53] by simp
  moreover have "(2::nat) ^ 53 \<le> 2 ^ 1024" by (rule power_increasing) simp_all
  with small have "nat \<bar>x\<bar> < doubleOverflow" unfolding doubleOverflow_def by (rule less_le_trans)
  ultimately show ?thesis using assms by (simp add: roundToDouble_def Let_def)
qed

lemma doubleOverflow_pos: "0 < doubleOverflow"
  by (simp add: doubleOverflow_def)

lemma roundToDouble_sign: "isPositive (roundToDouble x) \<longleftrightarrow> 0 < x"
proof -
  obtain m where "0 < m \<longleftrightarrow> x \<noteq> 0" and "roundToDouble x =
           (if doubleOverflow \<le> m then (if x < 0 then NegInf else PosInf)
            else Finite (if x < 0 then - int m else int m))"
    by (rule roundToDouble_shape)
  then show ?thesis using doubleOverflow_pos by (cases "x = 0") auto
qed

lemma roundToDouble_range:
  assumes "0 \<le> x"
  shows "roundToDouble x = PosInf \<or>
         (\<exists>m. roundToDouble x = Finite m \<and> 0 \<le> m \<and> m < int doubleOverflow)"
proof -
  obtain m where "roundToDouble x =
           (if doubleOverflow \<le> m then (if x < 0 then NegInf else PosInf)
            else Finite (if x < 0 then - int m else int m))"
    by (rule roundToDouble_shape)
  with assms show ?thesis by auto
qed

text \<open>On a string of digits \<^verbatim>\<open>parseInt\<close> is the Number value of the integer it denotes.\<close>

lemma isDigit_not_space: "isDigit c \<Longrightarrow> \<not> isWhiteSpace c"
  by (auto simp: isDigit_def isWhiteSpace_def word_le_nat_alt)

lemma isDigit_not_sign: "isDigit c \<Longrightarrow> c \<noteq> 0x2B \<and> c \<noteq> 0x2D \<and> c \<noteq> 0x78 \<and> c \<noteq> 0x58"
  by (auto simp: isDigit_def)

lemma isDigit_radix: "isDigit c \<Longrightarrow> isRadixDigit 10 c"
proof -
  assume d: "isDigit c"
  then have "unat c \<le> unat (0x39 :: jschar)" by (simp add: isDigit_def word_le_nat_alt)
  then have "unat c - 0x30 < 10" by simp
  with d show ?thesis by (simp add: isRadixDigit_def digitValue_def isDigit_def)
qed

lemma parseInt_digits:
  assumes "allDigits s"
  shows "parseInt s = roundToDouble (int (radixValue 10 s))"
proof -
  from assms obtain c cs where s: "s = c # cs" and all: "list_all isDigit s"
    by (cases s) (auto simp: allDigits_def)
  then have c: "isDigit c" by simp
  have S0: "dropWhile isWhiteSpace s = s" using c s by (simp add: isDigit_not_space)
  have sign: "hd s \<noteq> 0x2B" "hd s \<noteq> 0x2D" using c s isDigit_not_sign [of c] by simp_all
  have nohex: "take 2 s \<noteq> js ''0x''" "take 2 s \<noteq> js ''0X''"
  proof -
    have "x \<in> set (take 2 s) \<Longrightarrow> isDigit x" for x
      using all by (auto simp: list_all_iff dest: in_set_takeD)
    then have "0x78 \<notin> set (take 2 s)" "0x58 \<notin> set (take 2 s)"
      using isDigit_not_sign by blast+
    then show "take 2 s \<noteq> js ''0x''" "take 2 s \<noteq> js ''0X''"
      by (auto simp: js_def)
  qed
  have Z: "takeWhile (isRadixDigit 10) s = s"
    using all by (auto simp: takeWhile_eq_all_conv list_all_iff isDigit_radix)
  from s have ne: "s \<noteq> []" by simp
  show ?thesis
    by (simp add: parseInt_def Let_def S0 sign nohex Z ne)
qed

lemma parseInt_digits_range:
  assumes "allDigits s"
  shows "parseInt s = PosInf \<or>
         (\<exists>m. parseInt s = Finite m \<and> 0 \<le> m \<and> m < int doubleOverflow)"
  using roundToDouble_range [of "int (radixValue 10 s)"] parseInt_digits [OF assms] by simp

lemma js_minus_sign:
  assumes x: "x = PosInf \<or> (\<exists>m. x = Finite m \<and> 0 \<le> m \<and> m < int doubleOverflow)"
    and y: "y = PosInf \<or> (\<exists>m. y = Finite m \<and> 0 \<le> m \<and> m < int doubleOverflow)"
  shows "isPositive (js_minus x y) \<longleftrightarrow> rank y < rank x"
  using x y by (auto simp: roundToDouble_sign)

lemma numberLE_rank:
  assumes x: "x = PosInf \<or> (\<exists>m. x = Finite m \<and> 0 \<le> m \<and> m < int doubleOverflow)"
    and y: "y = PosInf \<or> (\<exists>m. y = Finite m \<and> 0 \<le> m \<and> m < int doubleOverflow)"
  shows "numberLE x y \<longleftrightarrow> rank x \<le> rank y"
  using x y by auto

lemma rank_inj:
  assumes x: "x = PosInf \<or> (\<exists>m. x = Finite m \<and> 0 \<le> m \<and> m < int doubleOverflow)"
    and y: "y = PosInf \<or> (\<exists>m. y = Finite m \<and> 0 \<le> m \<and> m < int doubleOverflow)"
  shows "rank x = rank y \<longleftrightarrow> x = y"
  using x y by auto

lemma mset_sort_insert: "mset (sort_insert cmp x xs) = add_mset x (mset xs)"
  by (induction xs) auto

lemma mset_array_sort: "mset (array_sort cmp xs) = mset xs"
  by (induction xs) (auto simp: array_sort_def mset_sort_insert)

text \<open>
  For a comparison function that agrees with an integer key, \<open>array_sort\<close> is the stable
  insertion sort of the library.
\<close>

lemma sort_insert_insort_key:
  assumes "\<And>y. y \<in> set xs \<Longrightarrow> isPositive (cmp x y) \<longleftrightarrow> k y < k x"
  shows "sort_insert cmp x xs = insort_key k x xs"
  using assms by (induction xs) (auto simp: not_less)

lemma array_sort_sort_key:
  fixes k :: "'a \<Rightarrow> int"
  assumes "\<And>x y. x \<in> set xs \<Longrightarrow> y \<in> set xs \<Longrightarrow> isPositive (cmp x y) \<longleftrightarrow> k y < k x"
  shows "array_sort cmp xs = sort_key k xs"
  using assms
proof (induction xs)
  case Nil
  show ?case by (simp add: array_sort_def)
next
  case (Cons a xs)
  have ih: "array_sort cmp xs = sort_key k xs" by (rule Cons.IH) (simp add: Cons.prems)
  have "sort_insert cmp a (sort_key k xs) = insort_key k a (sort_key k xs)"
    by (rule sort_insert_insort_key) (simp add: Cons.prems)
  with ih show ?case by (simp add: array_sort_def)
qed

lemma compareQRCodes_sign:
  assumes "allDigits (number a)" and "allDigits (number b)"
  shows "isPositive (compareQRCodes a b) \<longleftrightarrow>
           rank (parseInt (number b)) < rank (parseInt (number a))"
  unfolding compareQRCodes_def
  by (rule js_minus_sign) (rule parseInt_digits_range, fact)+

lemma array_sort_by_rank:
  assumes "\<forall>r\<in>set qrCodes. allDigits (number r)"
  shows "array_sort compareQRCodes qrCodes = sort_key (\<lambda>r. rank (parseInt (number r))) qrCodes"
  by (rule array_sort_sort_key) (simp add: compareQRCodes_sign assms)

lemma array_sort_sorted:
  assumes "\<forall>r\<in>set qrCodes. allDigits (number r)"
  shows "sorted_wrt (\<lambda>a b. numberLE (parseInt (number a)) (parseInt (number b)))
           (array_sort compareQRCodes qrCodes)"
proof -
  let ?k = "\<lambda>r. rank (parseInt (number r))"
  have "sorted (map ?k (sort_key ?k qrCodes))" by (rule sorted_sort_key)
  then have "sorted_wrt (\<lambda>a b. ?k a \<le> ?k b) (sort_key ?k qrCodes)"
    by (simp add: sorted_map)
  then have "sorted_wrt (\<lambda>a b. numberLE (parseInt (number a)) (parseInt (number b)))
               (sort_key ?k qrCodes)"
  proof (rule sorted_wrt_mono_rel [rotated])
    fix a b assume "a \<in> set (sort_key ?k qrCodes)" "b \<in> set (sort_key ?k qrCodes)"
      and le: "?k a \<le> ?k b"
    then have "allDigits (number a)" "allDigits (number b)" using assms by simp_all
    then show "numberLE (parseInt (number a)) (parseInt (number b))"
      using le by (simp add: numberLE_rank parseInt_digits_range)
  qed
  then show ?thesis by (simp add: array_sort_by_rank [OF assms])
qed

lemma array_sort_stable:
  assumes "\<forall>r\<in>set qrCodes. allDigits (number r)"
  shows "filter (\<lambda>r. parseInt (number r) = x) (array_sort compareQRCodes qrCodes)
           = filter (\<lambda>r. parseInt (number r) = x) qrCodes"
proof -
  let ?k = "\<lambda>r. rank (parseInt (number r))"
  let ?range = "\<lambda>x. x = PosInf \<or> (\<exists>m. x = Finite m \<and> 0 \<le> m \<and> m < int doubleOverflow)"
  have set: "set (array_sort compareQRCodes qrCodes) = set qrCodes"
    using mset_array_sort [of compareQRCodes qrCodes] by (rule mset_eq_setD)
  show ?thesis
  proof (cases "?range x")
    case True
    have eq: "(parseInt (number r) = x) = (?k r = rank x)" if "r \<in> set qrCodes" for r
      using rank_inj [OF parseInt_digits_range True, of "number r"] that assms by auto
    have "filter (\<lambda>r. parseInt (number r) = x) (array_sort compareQRCodes qrCodes)
            = filter (\<lambda>r. ?k r = rank x) (array_sort compareQRCodes qrCodes)"
      by (rule filter_cong [OF refl]) (simp add: eq set)
    also have "\<dots> = filter (\<lambda>r. ?k r = rank x) qrCodes"
      by (simp add: array_sort_by_rank [OF assms] sort_key_stable)
    also have "\<dots> = filter (\<lambda>r. parseInt (number r) = x) qrCodes"
      by (rule filter_cong [OF refl]) (simp add: eq)
    finally show ?thesis .
  next
    case False
    have "parseInt (number r) \<noteq> x" if "r \<in> set qrCodes" for r
      using parseInt_digits_range [of "number r"] that assms False by auto
    then show ?thesis by (simp add: set filter_empty_conv [THEN iffD2])
  qed
qed

lemma array_sort_exact:
  assumes "\<forall>r\<in>set qrCodes. allDigits (number r)"
    and small: "\<forall>r\<in>set qrCodes. radixValue 10 (number r) < 2 ^ 53"
  shows "sorted_wrt (\<lambda>a b. radixValue 10 (number a) \<le> radixValue 10 (number b))
           (array_sort compareQRCodes qrCodes)"
proof -
  have set: "set (array_sort compareQRCodes qrCodes) = set qrCodes"
    using mset_array_sort [of compareQRCodes qrCodes] by (rule mset_eq_setD)
  have val: "parseInt (number r) = Finite (int (radixValue 10 (number r)))"
    if "r \<in> set qrCodes" for r
  proof -
    from that small have "int (radixValue 10 (number r)) < 2 ^ 53"
      by (metis of_nat_less_iff of_nat_numeral of_nat_power)
    then show ?thesis using that assms by (simp add: parseInt_digits roundToDouble_exact)
  qed
  from array_sort_sorted [OF assms(1)] show ?thesis
  proof (rule sorted_wrt_mono_rel [rotated])
    fix a b assume "a \<in> set (array_sort compareQRCodes qrCodes)"
      "b \<in> set (array_sort compareQRCodes qrCodes)"
      and "numberLE (parseInt (number a)) (parseInt (number b))"
    then show "radixValue 10 (number a) \<le> radixValue 10 (number b)"
      by (simp add: set val)
  qed
qed

text \<open>
  The records of the program have identifiers made of digits: the lines of an accepted
  upload pass the validation, and \<^verbatim>\<open>processBatch\<close> takes the identifier from a stored line.
\<close>

lemma batch_identifiers_are_digits:
  assumes "validateLines fc = None" and "processBatch E v fc pw a b = Inr recs"
    and "b \<le> length fc"
  shows "\<forall>r\<in>set recs. allDigits (number r)"
proof
  fix r assume r: "r \<in> set recs"
  from processBatch_Inr [OF assms(2,3)]
  have all: "list_all2 (producedFrom E v pw) (take (b - a) (drop a fc)) recs" .
  have "\<exists>l\<in>set ls. producedFrom E v pw l r" if "list_all2 (producedFrom E v pw) ls recs" for ls
    using that r by (induction ls recs rule: list_all2_induct) auto
  with all obtain l where l: "l \<in> set (take (b - a) (drop a fc))" "producedFrom E v pw l r"
    by blast
  from l(1) have "l \<in> set fc" by (meson in_set_dropD in_set_takeD)
  with assms(1) have "allDigits (removeWhiteSpace l)" by (simp add: validateLines_None_iff)
  with l(2) show "allDigits (number r)" by (simp add: producedFrom_def)
qed

lemma upload_keeps_lines_valid:
  assumes "validateLines (fileContent st) = None"
  shows "validateLines (fileContent (handleFileUpload file st)) = None"
  using assms
  by (cases "file") (auto simp: handleFileUpload_def Let_def split: option.splits)

subsection \<open>The archive\<close>

lemma downloadBatch_unfold:
  assumes "\<not> folder_is_null E (folderNameOf start endN)"
  shows "downloadBatch E v qrCodes bn start endN =
           (generateAsync E (archiveOf v start endN (array_sort compareQRCodes qrCodes)),
            array_sort compareQRCodes qrCodes,
            if generateAsync E (archiveOf v start endN (array_sort compareQRCodes qrCodes)) = None
            then [Download (folderNameOf start endN @ js ''.zip'')
                    (archiveOf v start endN (array_sort compareQRCodes qrCodes))]
            else [])"
  using assms
  by (auto simp: downloadBatch_def archiveOf_def zip_folder_def Let_def split: option.splits)

lemma downloadBatch_None:
  "downloadBatch E v qrCodes bn start endN = (None, qs, devs) \<Longrightarrow>
     \<not> folder_is_null E (folderNameOf start endN)"
  by (auto simp: downloadBatch_def Let_def)

lemma files_set_keys: "fst ` set (files_set n obj fs) = insert n (fst ` set fs)"
  by (induction n obj fs rule: files_set.induct) auto

lemma files_set_distinct:
  "distinct (map fst fs) \<Longrightarrow> distinct (map fst (files_set n obj fs))"
proof (induction fs)
  case Nil
  show ?case by simp
next
  case (Cons p fs)
  obtain k old where p: "p = (k, old)" by (cases p)
  have "k \<notin> fst ` set (files_set n obj fs)" if "k \<noteq> n"
    using that Cons.prems by (simp add: files_set_keys p)
  with Cons show ?case by (auto simp: p)
qed

lemma map_of_files_set: "map_of (files_set n obj fs) = (map_of fs)(n \<mapsto> obj)"
  by (induction n obj fs rule: files_set.induct) (auto simp: fun_eq_iff)

lemma files_set_dirs:
  "obj \<noteq> Dir \<Longrightarrow> (n, Dir) \<notin> set fs \<Longrightarrow>
     filter (\<lambda>p. snd p = Dir) (files_set n obj fs) = filter (\<lambda>p. snd p = Dir) fs"
  by (induction n obj fs rule: files_set.induct) auto

lemma files_set_subset: "set (files_set n obj fs) \<subseteq> insert (n, obj) (set fs)"
  by (induction n obj fs rule: files_set.induct) auto

lemma fold_files_keys:
  "fst ` set (fold (\<lambda>x. files_set (kf x) (vf x)) xs fs) = fst ` set fs \<union> kf ` set xs"
  by (induction xs arbitrary: fs) (auto simp: files_set_keys)

lemma fold_files_distinct:
  "distinct (map fst fs) \<Longrightarrow> distinct (map fst (fold (\<lambda>x. files_set (kf x) (vf x)) xs fs))"
  by (induction xs arbitrary: fs) (auto simp: files_set_distinct)

lemma fold_files_subset:
  "set (fold (\<lambda>x. files_set (kf x) (vf x)) xs fs) \<subseteq> set fs \<union> (\<lambda>x. (kf x, vf x)) ` set xs"
proof (induction xs arbitrary: fs)
  case Nil
  show ?case by simp
next
  case (Cons x xs)
  from Cons.IH [of "files_set (kf x) (vf x) fs"] files_set_subset [of "kf x" "vf x" fs]
  show ?case by auto
qed

lemma fold_files_dirs:
  assumes "\<And>x. x \<in> set xs \<Longrightarrow> vf x \<noteq> Dir" and "\<And>x. x \<in> set xs \<Longrightarrow> (kf x, Dir) \<notin> set fs"
  shows "filter (\<lambda>p. snd p = Dir) (fold (\<lambda>x. files_set (kf x) (vf x)) xs fs)
           = filter (\<lambda>p. snd p = Dir) fs"
  using assms
proof (induction xs arbitrary: fs)
  case Nil
  show ?case by simp
next
  case (Cons x xs)
  have keep: "(kf y, Dir) \<notin> set (files_set (kf x) (vf x) fs)" if "y \<in> set xs" for y
    using files_set_subset [of "kf x" "vf x" fs] Cons.prems(1) [of x] Cons.prems(2) [of y] that
    by auto
  have "filter (\<lambda>p. snd p = Dir) (fold (\<lambda>x. files_set (kf x) (vf x)) xs (files_set (kf x) (vf x) fs))
          = filter (\<lambda>p. snd p = Dir) (files_set (kf x) (vf x) fs)"
    by (rule Cons.IH) (simp_all add: Cons.prems keep)
  also have "\<dots> = filter (\<lambda>p. snd p = Dir) fs"
    by (rule files_set_dirs) (simp_all add: Cons.prems)
  finally show ?case by simp
qed

lemma fold_files_map_of:
  "map_of (fold (\<lambda>x. files_set (kf x) (vf x)) xs fs) k =
     (if k \<in> kf ` set xs then Some (vf (last (filter (\<lambda>x. kf x = k) xs))) else map_of fs k)"
proof (induction xs arbitrary: fs rule: rev_induct)
  case Nil
  show ?case by simp
next
  case (snoc x xs)
  show ?case by (auto simp: map_of_files_set snoc.IH)
qed

lemma distinct_keys_filter:
  "distinct (map fst fs) \<Longrightarrow> map_of fs k = Some obj \<Longrightarrow>
     filter (\<lambda>p. fst p = k) fs = [(k, obj)]"
proof (induction fs)
  case Nil
  then show ?case by simp
next
  case (Cons p fs)
  show ?case
  proof (cases "fst p = k")
    case True
    from Cons.prems(1) have "fst p \<notin> fst ` set fs" by simp
    with True have "\<forall>q\<in>set fs. fst q \<noteq> k" by (metis image_eqI)
    then have "filter (\<lambda>p. fst p = k) fs = []" by (simp add: filter_empty_conv)
    with True Cons.prems show ?thesis by (cases p) auto
  next
    case False
    with Cons show ?thesis by (cases p) auto
  qed
qed

lemma archiveOf_fold:
  "archiveOf v start endN qs =
     fold (\<lambda>q. files_set (folderNameOf start endN @ js ''/'' @ imageFileName v q)
                  (File (stripDataUriPrefix (qrDataUrl q))))
          qs [(folderNameOf start endN @ js ''/'', Dir)]"
  by (simp add: archiveOf_def folder_file_def [abs_def])

lemma imageFileName_inj: "imageFileName v a = imageFileName v b \<longleftrightarrow> number a = number b"
  by (cases v) (simp_all add: imageFileName_def)

lemma imageFileName_nonempty: "imageFileName v a \<noteq> []"
  by (cases v) (simp_all add: imageFileName_def js_def)

lemma archiveOf_dirs:
  "filter (\<lambda>p. snd p = Dir) (archiveOf v start endN qs) = [(folderNameOf start endN @ js ''/'', Dir)]"
  unfolding archiveOf_fold
  by (subst fold_files_dirs) (simp_all add: imageFileName_nonempty)

lemma archiveOf_distinct: "distinct (map fst (archiveOf v start endN qs))"
  unfolding archiveOf_fold by (rule fold_files_distinct) simp

lemma archiveOf_lookup:
  assumes "r \<in> set qs"
  shows "map_of (archiveOf v start endN qs) (folderNameOf start endN @ js ''/'' @ imageFileName v r)
           = Some (File (stripDataUriPrefix
                           (qrDataUrl (last (filter (\<lambda>q. number q = number r) qs)))))"
  using assms unfolding archiveOf_fold
  by (simp add: fold_files_map_of imageFileName_inj image_iff) blast

lemma archiveOf_entries:
  assumes "p \<in> set (archiveOf v start endN qs)" and "snd p \<noteq> Dir"
  shows "\<exists>r\<in>set qs. p = (folderNameOf start endN @ js ''/'' @ imageFileName v r,
                          File (stripDataUriPrefix (qrDataUrl r)))"
  using assms fold_files_subset [of "\<lambda>q. folderNameOf start endN @ js ''/'' @ imageFileName v q"
      "\<lambda>q. File (stripDataUriPrefix (qrDataUrl q))" qs "[(folderNameOf start endN @ js ''/'', Dir)]"]
  unfolding archiveOf_fold by auto

lemma archiveOf_file_count:
  "length (filter (\<lambda>p. snd p \<noteq> Dir) (archiveOf v start endN qs)) = card (number ` set qs)"
proof -
  define rootPath where "rootPath = folderNameOf start endN @ js ''/''"
  define g where "g = (\<lambda>n. rootPath @ (case v of FixedSecret \<Rightarrow> n @ js ''.png''
                                         | UserSecret \<Rightarrow> js ''qrcode_'' @ n @ js ''.png''))"
  define A where "A = archiveOf v start endN qs"
  define F where "F = {p \<in> set A. snd p \<noteq> Dir}"
  have kf: "folderNameOf start endN @ js ''/'' @ imageFileName v q = g (number q)" for q
    by (cases v) (simp_all add: g_def rootPath_def imageFileName_def)
  have g_inj: "inj g"
    by (cases v) (simp_all add: inj_on_def g_def)
  have g_root: "g n \<noteq> rootPath" for n
    by (cases v) (simp_all add: g_def js_def)
  have dk: "distinct (map fst A)" unfolding A_def by (rule archiveOf_distinct)
  then have d: "distinct A" and inj: "inj_on fst (set A)" by (simp_all add: distinct_map)
  have keys: "fst ` set A = insert rootPath (g ` number ` set qs)"
    unfolding A_def archiveOf_fold by (simp add: fold_files_keys kf rootPath_def image_image)
  have dirs: "filter (\<lambda>p. snd p = Dir) A = [(rootPath, Dir)]"
    unfolding A_def rootPath_def by (rule archiveOf_dirs)
  have sub1: "fst ` F \<subseteq> g ` number ` set qs"
  proof
    fix k assume "k \<in> fst ` F"
    then obtain p where p: "p \<in> set A" "snd p \<noteq> Dir" "k = fst p" by (auto simp: F_def)
    from archiveOf_entries [OF p(1) [unfolded A_def] p(2)] obtain r where
      "r \<in> set qs" "fst p = g (number r)" by (auto simp: kf)
    with p(3) show "k \<in> g ` number ` set qs" by simp
  qed
  have sub2: "g ` number ` set qs \<subseteq> fst ` F"
  proof
    fix k assume k: "k \<in> g ` number ` set qs"
    then have "k \<in> fst ` set A" by (simp add: keys)
    then obtain p where p: "p \<in> set A" "fst p = k" by auto
    have "snd p \<noteq> Dir"
    proof
      assume "snd p = Dir"
      with p(1) have "p \<in> set (filter (\<lambda>p. snd p = Dir) A)" by simp
      then have "p = (rootPath, Dir)" by (simp add: dirs)
      with p(2) have "k = rootPath" by simp
      with k g_root show False by auto
    qed
    with p have "p \<in> F" by (simp add: F_def)
    with p(2) show "k \<in> fst ` F" by (metis imageI)
  qed
  have "F \<subseteq> set A" by (auto simp: F_def)
  with inj have "inj_on fst F" by (rule inj_on_subset)
  then have c1: "card (fst ` F) = card F" by (rule card_image)
  have c2: "length (filter (\<lambda>p. snd p \<noteq> Dir) A) = card F"
    using d by (simp add: distinct_length_filter F_def Int_def conj_commute)
  have c3: "card (g ` number ` set qs) = card (number ` set qs)"
    by (rule card_image) (rule inj_on_subset [OF g_inj], simp)
  from sub1 sub2 have "fst ` F = g ` number ` set qs" by (rule subset_antisym)
  with c1 c2 c3 show ?thesis by (simp add: A_def)
qed

lemma produced_same_payload:
  assumes "list_all2 (producedFrom E v pw) ls recs"
    and "a \<in> set recs" and "b \<in> set recs" and "number a = number b"
  shows "qrDataUrl a = qrDataUrl b"
proof -
  have "\<exists>l. producedFrom E v pw l r" if "r \<in> set recs" for r
    using assms(1) that by (induction ls recs rule: list_all2_induct) auto
  with assms(2,3) obtain la lb where "producedFrom E v pw la a" "producedFrom E v pw lb b"
    by blast
  then have ua: "case generateHash E v (number a) pw of
                   Inl e \<Rightarrow> False | Inr hash \<Rightarrow> url a = qrUrl (number a) hash"
    and qa: "toDataURL E (url a) = Inr (qrDataUrl a)"
    and ub: "case generateHash E v (number b) pw of
               Inl e \<Rightarrow> False | Inr hash \<Rightarrow> url b = qrUrl (number b) hash"
    and qb: "toDataURL E (url b) = Inr (qrDataUrl b)"
    unfolding producedFrom_def by blast+
  from ua ub assms(4) have "url a = url b" by (simp split: sum.splits)
  with qa qb have "Inr (qrDataUrl a) = (Inr (qrDataUrl b) :: exn + jsstring)" by simp
  then show ?thesis by simp
qed

lemma last_filter_in:
  "r \<in> set qs \<Longrightarrow> last (filter (\<lambda>q. f q = f r) qs) \<in> set qs \<and>
     f (last (filter (\<lambda>q. f q = f r) qs)) = f r"
proof -
  assume "r \<in> set qs"
  then have ne: "filter (\<lambda>q. f q = f r) qs \<noteq> []" by (auto simp: filter_empty_conv)
  then have "last (filter (\<lambda>q. f q = f r) qs) \<in> set (filter (\<lambda>q. f q = f r) qs)"
    by (rule last_in_set)
  then show ?thesis by simp
qed

text \<open>
  C6 (as amended). For a batch that \<^verbatim>\<open>processBatch\<close> built and \<^verbatim>\<open>downloadBatch\<close> packaged with the
  display range from \<open>start\<close> to \<open>endN\<close>, the archive that is downloaded has exactly one
  folder, \<^verbatim>\<open>QR Codes {start} - {endN}/\<close>, and for each record exactly one entry with the
  record's file name in that folder; its content is the record's data URL without the
  prefix \<^verbatim>\<open>data:image/png;base64,\<close>; there is no other file. The file name is the identifier
  followed by \<^verbatim>\<open>.png\<close> in \<^verbatim>\<open>App.tsx\<close>, and \<^verbatim>\<open>qrcode_\<close>, the identifier and \<^verbatim>\<open>.png\<close> in the variant
  with a password.
\<close>

theorem packaged_archive_contents:
  assumes batch: "processBatch E v fc pw a b = Inr qrCodes" and len: "b \<le> length fc"
    and ok: "downloadBatch E v qrCodes bn start endN = (None, qs, devs)"
  shows "\<exists>files.
           devs = [Download (folderNameOf start endN @ js ''.zip'') files] \<and>
           filter (\<lambda>p. snd p = Dir) files = [(folderNameOf start endN @ js ''/'', Dir)] \<and>
           (\<forall>r\<in>set qrCodes.
              filter (\<lambda>p. fst p = folderNameOf start endN @ js ''/'' @ imageFileName v r) files =
                [(folderNameOf start endN @ js ''/'' @ imageFileName v r,
                  File (stripDataUriPrefix (qrDataUrl r)))]) \<and>
           (\<forall>p\<in>set files. snd p \<noteq> Dir \<longrightarrow>
              (\<exists>r\<in>set qrCodes. fst p = folderNameOf start endN @ js ''/'' @ imageFileName v r)) \<and>
           (\<forall>r. imageFileName FixedSecret r = number r @ js ''.png'' \<and>
                imageFileName UserSecret r = js ''qrcode_'' @ number r @ js ''.png'')"
proof -
  let ?qs = "array_sort compareQRCodes qrCodes"
  let ?files = "archiveOf v start endN ?qs"
  have set: "set ?qs = set qrCodes"
    using mset_array_sort [of compareQRCodes qrCodes] by (rule mset_eq_setD)
  from ok have "\<not> folder_is_null E (folderNameOf start endN)" by (rule downloadBatch_None)
  from downloadBatch_unfold [OF this, of v qrCodes bn] ok
  have devs: "devs = [Download (folderNameOf start endN @ js ''.zip'') ?files]"
    by (auto split: if_splits)
  have prod: "list_all2 (producedFrom E v pw) (take (b - a) (drop a fc)) qrCodes"
    using batch len by (rule processBatch_Inr)
  have one: "filter (\<lambda>p. fst p = folderNameOf start endN @ js ''/'' @ imageFileName v r) ?files =
                [(folderNameOf start endN @ js ''/'' @ imageFileName v r,
                  File (stripDataUriPrefix (qrDataUrl r)))]"
    if r: "r \<in> set qrCodes" for r
  proof -
    let ?l = "last (filter (\<lambda>q. number q = number r) ?qs)"
    from r have "r \<in> set ?qs" by (simp add: set)
    from last_filter_in [OF this, of number]
    have "?l \<in> set qrCodes" "number ?l = number r" by (simp_all add: set)
    with prod r have "qrDataUrl ?l = qrDataUrl r" by (intro produced_same_payload)
    with archiveOf_lookup [OF \<open>r \<in> set ?qs\<close>, of v start endN]
    have "map_of ?files (folderNameOf start endN @ js ''/'' @ imageFileName v r)
            = Some (File (stripDataUriPrefix (qrDataUrl r)))" by simp
    with archiveOf_distinct show ?thesis by (rule distinct_keys_filter)
  qed
  have named: "\<exists>r\<in>set qrCodes. fst p = folderNameOf start endN @ js ''/'' @ imageFileName v r"
    if "p \<in> set ?files" "snd p \<noteq> Dir" for p
    using archiveOf_entries [OF that] by (auto simp: set)
  from devs archiveOf_dirs one named show ?thesis
    by (intro exI [of _ ?files]) (simp add: imageFileName_def)
qed

theorem packaged_archive_contents_witness:
  "\<exists>qrCodes qs devs.
     processBatch exampleEnv FixedSecret [js ''7'', js ''8''] [] 0 2 = Inr qrCodes \<and>
     2 \<le> length [js ''7'', js ''8''] \<and>
     downloadBatch exampleEnv FixedSecret qrCodes 1 1 2 = (None, qs, devs) \<and>
     (\<exists>files.
        devs = [Download (folderNameOf 1 2 @ js ''.zip'') files] \<and>
        filter (\<lambda>p. snd p = Dir) files = [(folderNameOf 1 2 @ js ''/'', Dir)] \<and>
        (\<forall>r\<in>set qrCodes.
           filter (\<lambda>p. fst p = folderNameOf 1 2 @ js ''/'' @ imageFileName FixedSecret r) files =
             [(folderNameOf 1 2 @ js ''/'' @ imageFileName FixedSecret r,
               File (stripDataUriPrefix (qrDataUrl r)))]) \<and>
        (\<forall>p\<in>set files. snd p \<noteq> Dir \<longrightarrow>
           (\<exists>r\<in>set qrCodes. fst p = folderNameOf 1 2 @ js ''/'' @ imageFileName FixedSecret r)) \<and>
        (\<forall>r. imageFileName FixedSecret r = number r @ js ''.png'' \<and>
             imageFileName UserSecret r = js ''qrcode_'' @ number r @ js ''.png''))"
proof -
  have hsh: "\<forall>s. \<exists>h. SHA256 exampleEnv s = Inr h" by (simp add: exampleEnv_def)
  have enc: "\<forall>u. \<exists>q. toDataURL exampleEnv u = Inr q" by (simp add: exampleEnv_def)
  have len: "2 \<le> length [js ''7'', js ''8'']" by simp
  from processBatch_loop_total [OF hsh enc len, of FixedSecret "[]" 0 "[]"]
  obtain qrCodes where a: "processBatch exampleEnv FixedSecret [js ''7'', js ''8''] [] 0 2 = Inr qrCodes"
    by (auto simp: processBatch_def)
  have "\<exists>qs devs. downloadBatch exampleEnv FixedSecret qrCodes 1 1 2 = (None, qs, devs)"
    by (rule downloadBatch_success) (simp_all add: exampleEnv_def)
  then obtain qs devs where b: "downloadBatch exampleEnv FixedSecret qrCodes 1 1 2 = (None, qs, devs)"
    by blast
  from a len b packaged_archive_contents [OF a len b] show ?thesis by blast
qed

text \<open>
  In the variant with a password the image of the identifier 7 is \<^verbatim>\<open>qrcode_7.png\<close>, not
  \<^verbatim>\<open>7.png\<close>.
\<close>

theorem password_variant_file_name:
  "snd (generateAndDownloadQRCodes exampleEnv UserSecret
          (initialState\<lparr>password := js ''p'', fileContent := [js ''7'']\<rparr>) []) =
     [Download (js ''QR Codes 1 - 1.zip'')
        [(js ''QR Codes 1 - 1/'', Dir),
         (js ''QR Codes 1 - 1/qrcode_7.png'', File (js ''https://check.vant.plus/7-h''))]] \<and>
   js ''QR Codes 1 - 1/qrcode_7.png'' \<noteq> js ''QR Codes 1 - 1/'' @ js ''7'' @ js ''.png''"
  by code_simp

text \<open>
  C9. When an identifier occurs twice in a batch, no insertion is refused: the archive
  \<open>files\<close> that the packager hands to \<^verbatim>\<open>generateAsync\<close> has one file for each distinct
  identifier, fewer files than the batch has records, and the content of a file is that of
  the last record with its identifier in the order of insertion \<open>qs\<close>. The only exception
  the call can end with is the one of \<^verbatim>\<open>generateAsync\<close> on this archive; when there is none,
  this archive is the one downloaded. Nothing is asked of \<^verbatim>\<open>generateAsync\<close> on other
  archives.
\<close>

theorem duplicate_identifiers_collapse:
  assumes dup: "\<not> distinct (map number qrCodes)"
    and folder: "\<not> folder_is_null E (folderNameOf start endN)"
  shows "\<exists>qs files.
           downloadBatch E v qrCodes bn start endN =
             (generateAsync E files, qs,
              if generateAsync E files = None
              then [Download (folderNameOf start endN @ js ''.zip'') files] else []) \<and>
           mset qs = mset qrCodes \<and>
           length (filter (\<lambda>p. snd p \<noteq> Dir) files) = card (number ` set qrCodes) \<and>
           length (filter (\<lambda>p. snd p \<noteq> Dir) files) < length qrCodes \<and>
           (\<forall>r\<in>set qrCodes.
              map_of files (folderNameOf start endN @ js ''/'' @ imageFileName v r) =
                Some (File (stripDataUriPrefix
                              (qrDataUrl (last (filter (\<lambda>q. number q = number r) qs))))))"
proof -
  let ?qs = "array_sort compareQRCodes qrCodes"
  let ?files = "archiveOf v start endN ?qs"
  have ms: "mset ?qs = mset qrCodes" by (rule mset_array_sort)
  then have set: "set ?qs = set qrCodes" by (rule mset_eq_setD)
  have run: "downloadBatch E v qrCodes bn start endN =
               (generateAsync E ?files, ?qs,
                if generateAsync E ?files = None
                then [Download (folderNameOf start endN @ js ''.zip'') ?files] else [])"
    by (rule downloadBatch_unfold [OF folder])
  have count: "length (filter (\<lambda>p. snd p \<noteq> Dir) ?files) = card (number ` set qrCodes)"
    by (simp add: archiveOf_file_count set)
  have "card (set (map number qrCodes)) \<noteq> length (map number qrCodes)"
    using dup card_distinct by blast
  moreover have "card (set (map number qrCodes)) \<le> length (map number qrCodes)"
    by (rule card_length)
  ultimately have less: "card (number ` set qrCodes) < length qrCodes" by simp
  have look: "map_of ?files (folderNameOf start endN @ js ''/'' @ imageFileName v r) =
                Some (File (stripDataUriPrefix
                              (qrDataUrl (last (filter (\<lambda>q. number q = number r) ?qs)))))"
    if "r \<in> set qrCodes" for r
    using that by (intro archiveOf_lookup) (simp add: set)
  from less count have less': "length (filter (\<lambda>p. snd p \<noteq> Dir) ?files) < length qrCodes"
    by simp
  from look have look': "\<forall>r\<in>set qrCodes.
      map_of ?files (folderNameOf start endN @ js ''/'' @ imageFileName v r) =
        Some (File (stripDataUriPrefix
                      (qrDataUrl (last (filter (\<lambda>q. number q = number r) ?qs)))))"
    by blast
  from run ms count less' look' show ?thesis
    by (intro exI [of _ ?qs] exI [of _ ?files] conjI)
qed

theorem duplicate_identifiers_collapse_witness:
  "\<not> distinct (map number [record9, record9b]) \<and>
   \<not> folder_is_null exampleEnv (folderNameOf 1 2) \<and>
   (\<exists>qs files.
      downloadBatch exampleEnv FixedSecret [record9, record9b] 1 1 2 =
        (generateAsync exampleEnv files, qs,
         if generateAsync exampleEnv files = None
         then [Download (folderNameOf 1 2 @ js ''.zip'') files] else []) \<and>
      mset qs = mset [record9, record9b] \<and>
      length (filter (\<lambda>p. snd p \<noteq> Dir) files) = card (number ` set [record9, record9b]) \<and>
      length (filter (\<lambda>p. snd p \<noteq> Dir) files) < length [record9, record9b] \<and>
      (\<forall>r\<in>set [record9, record9b].
         map_of files (folderNameOf 1 2 @ js ''/'' @ imageFileName FixedSecret r) =
           Some (File (stripDataUriPrefix
                         (qrDataUrl (last (filter (\<lambda>q. number q = number r) qs)))))))"
proof -
  have a: "\<not> distinct (map number [record9, record9b])"
    by (simp add: record9_def record9b_def)
  have b: "\<not> folder_is_null exampleEnv (folderNameOf 1 2)" by (simp add: exampleEnv_def)
  from a b duplicate_identifiers_collapse [OF a b, of FixedSecret 1] show ?thesis
    by blast
qed

text \<open>Two records with the identifier 9: one file, with the payload of the second.\<close>

lemma parseInt_9: "parseInt (js ''9'') = Finite 9"
  by (simp add: parseInt_digits allDigits_def js_def isDigit_def radixValue_def digitValue_def
      roundToDouble_exact)

lemma duplicate_example:
  "downloadBatch exampleEnv FixedSecret [record9, record9b] 1 1 2 =
     (None, [record9, record9b],
      [Download (js ''QR Codes 1 - 2.zip'')
         [(js ''QR Codes 1 - 2/'', Dir), (js ''QR Codes 1 - 2/9.png'', File (js ''WA==''))]])"
proof -
  have s: "array_sort compareQRCodes [record9, record9b] = [record9, record9b]"
    by (simp add: array_sort_def compareQRCodes_def record9_def record9b_def parseInt_9
        roundToDouble_exact)
  have f: "archiveOf FixedSecret 1 2 [record9, record9b] =
      [(js ''QR Codes 1 - 2/'', Dir), (js ''QR Codes 1 - 2/9.png'', File (js ''WA==''))]"
    by (simp add: archiveOf_def folder_file_def folderNameOf_def numToString.simps
        imageFileName_def stripDataUriPrefix_def js_def record9_def record9b_def)
  have n: "folderNameOf 1 2 @ js ''.zip'' = js ''QR Codes 1 - 2.zip''"
    by (simp add: folderNameOf_def numToString.simps js_def)
  have "\<not> folder_is_null exampleEnv (folderNameOf 1 2)" by (simp add: exampleEnv_def)
  from downloadBatch_unfold [OF this, of FixedSecret "[record9, record9b]" 1]
  show ?thesis unfolding s f n by (simp add: exampleEnv_def)
qed

subsection \<open>The order of the images\<close>

text \<open>
  What the sort of \<^verbatim>\<open>downloadBatch\<close> gives for a batch whose identifiers are made of digits:
  the images are inserted in the order of the sorted array \<open>qs\<close>, a permutation of the batch
  that is ascending in the Number values \<^verbatim>\<open>parseInt\<close> gives to the identifiers, and records
  with the same Number value keep their order. Only when every identifier is below
  \<open>2 ^ 53\<close> is that the ascending order of the numeric values of the identifiers.
\<close>

lemma downloadBatch_order_of_Number_values:
  assumes digits: "\<forall>r\<in>set qrCodes. allDigits (number r)"
    and folder: "\<not> folder_is_null E (folderNameOf start endN)"
  shows "\<exists>qs.
           snd (snd (downloadBatch E v qrCodes bn start endN)) =
             (if generateAsync E (archiveOf v start endN qs) = None
              then [Download (folderNameOf start endN @ js ''.zip'') (archiveOf v start endN qs)]
              else []) \<and>
           mset qs = mset qrCodes \<and>
           sorted_wrt (\<lambda>a b. numberLE (parseInt (number a)) (parseInt (number b))) qs \<and>
           (\<forall>x. filter (\<lambda>r. parseInt (number r) = x) qs =
                filter (\<lambda>r. parseInt (number r) = x) qrCodes) \<and>
           ((\<forall>r\<in>set qrCodes. radixValue 10 (number r) < 2 ^ 53) \<longrightarrow>
              sorted_wrt (\<lambda>a b. radixValue 10 (number a) \<le> radixValue 10 (number b)) qs)"
proof -
  let ?qs = "array_sort compareQRCodes qrCodes"
  have "snd (snd (downloadBatch E v qrCodes bn start endN)) =
             (if generateAsync E (archiveOf v start endN ?qs) = None
              then [Download (folderNameOf start endN @ js ''.zip'') (archiveOf v start endN ?qs)]
              else [])"
    by (simp add: downloadBatch_unfold [OF folder])
  moreover have "mset ?qs = mset qrCodes" by (rule mset_array_sort)
  moreover note array_sort_sorted [OF digits] array_sort_stable [OF digits]
  moreover have "(\<forall>r\<in>set qrCodes. radixValue 10 (number r) < 2 ^ 53) \<longrightarrow>
      sorted_wrt (\<lambda>a b. radixValue 10 (number a) \<le> radixValue 10 (number b)) ?qs"
    using array_sort_exact [OF digits] by blast
  ultimately show ?thesis by (intro exI [of _ ?qs]) blast
qed

lemma large_values:
  "radixValue 10 (js ''9007199254740993'') = 9007199254740993"
  "radixValue 10 (js ''9007199254740992'') = 9007199254740992"
  "radixValue 10 (js ''18014398509481985'') = 18014398509481985"
  "radixValue 10 (js ''18014398509481984'') = 18014398509481984"
  by (simp_all add: radixValue_def js_def digitValue_def)

lemma large_digits:
  "allDigits (js ''9007199254740993'')" "allDigits (js ''9007199254740992'')"
  "allDigits (js ''18014398509481985'')" "allDigits (js ''18014398509481984'')"
  by (simp_all add: allDigits_def js_def isDigit_def)

lemma large_bit_length:
  "bit_length 9007199254740993 = 54" "bit_length 9007199254740992 = 54"
  "bit_length 18014398509481985 = 55" "bit_length 18014398509481984 = 55"
  by (rule bit_length_eq [of 53, simplified] bit_length_eq [of 54, simplified]; simp)+

lemma large_rounded:
  "roundToDouble 9007199254740993 = Finite 9007199254740992"
  "roundToDouble 9007199254740992 = Finite 9007199254740992"
  "roundToDouble 18014398509481985 = Finite 18014398509481984"
  "roundToDouble 18014398509481984 = Finite 18014398509481984"
  by (simp_all add: roundToDouble_def Let_def large_bit_length doubleOverflow_def)

lemma large_compare:
  "number a = js ''9007199254740993'' \<Longrightarrow> number b = js ''9007199254740992'' \<Longrightarrow>
     compareQRCodes a b = Finite 0"
  "number a = js ''18014398509481985'' \<Longrightarrow> number b = js ''18014398509481984'' \<Longrightarrow>
     compareQRCodes a b = Finite 0"
  by (simp_all add: compareQRCodes_def parseInt_digits large_digits large_values large_rounded
      roundToDouble_exact)

lemma large_batch:
  "processBatch exampleEnv FixedSecret [js ''9007199254740993'', js ''9007199254740992''] pw 0 2 =
     Inr [\<lparr>url = js ''https://check.vant.plus/9007199254740993-h'',
            qrDataUrl = js ''data:image/png;base64,https://check.vant.plus/9007199254740993-h'',
            number = js ''9007199254740993''\<rparr>,
          \<lparr>url = js ''https://check.vant.plus/9007199254740992-h'',
            qrDataUrl = js ''data:image/png;base64,https://check.vant.plus/9007199254740992-h'',
            number = js ''9007199254740992''\<rparr>]"
  by (simp add: processBatch_def processBatch_loop.simps [of _ _ _ _ 0]
      processBatch_loop.simps [of _ _ _ _ "Suc 0"] processBatch_loop.simps [of _ _ _ _ "Suc (Suc 0)"]
      Let_def generateQRCode_def generateHash_def exampleEnv_def removeWhiteSpace_def isWhiteSpace_def
      js_def)

lemma large_download:
  "downloadBatch exampleEnv FixedSecret
     [\<lparr>url = js ''https://check.vant.plus/9007199254740993-h'',
        qrDataUrl = js ''data:image/png;base64,https://check.vant.plus/9007199254740993-h'',
        number = js ''9007199254740993''\<rparr>,
      \<lparr>url = js ''https://check.vant.plus/9007199254740992-h'',
        qrDataUrl = js ''data:image/png;base64,https://check.vant.plus/9007199254740992-h'',
        number = js ''9007199254740992''\<rparr>] bn 1 2 =
   (None,
     [\<lparr>url = js ''https://check.vant.plus/9007199254740993-h'',
        qrDataUrl = js ''data:image/png;base64,https://check.vant.plus/9007199254740993-h'',
        number = js ''9007199254740993''\<rparr>,
      \<lparr>url = js ''https://check.vant.plus/9007199254740992-h'',
        qrDataUrl = js ''data:image/png;base64,https://check.vant.plus/9007199254740992-h'',
        number = js ''9007199254740992''\<rparr>],
     [Download (js ''QR Codes 1 - 2.zip'')
        [(js ''QR Codes 1 - 2/'', Dir),
         (js ''QR Codes 1 - 2/9007199254740993.png'',
          File (js ''https://check.vant.plus/9007199254740993-h'')),
         (js ''QR Codes 1 - 2/9007199254740992.png'',
          File (js ''https://check.vant.plus/9007199254740992-h''))]])"
proof -
  have "\<not> folder_is_null exampleEnv (folderNameOf 1 2)" by (simp add: exampleEnv_def)
  from downloadBatch_unfold [OF this] show ?thesis
    by (simp add: array_sort_def large_compare archiveOf_def folder_file_def folderNameOf_def
        numToString.simps imageFileName_def stripDataUriPrefix_def exampleEnv_def js_def)
qed

lemma large_no_space:
  "removeWhiteSpace (js ''9007199254740993'') = js ''9007199254740993''"
  "removeWhiteSpace (js ''9007199254740992'') = js ''9007199254740992''"
  "removeWhiteSpace (js ''18014398509481985'') = js ''18014398509481985''"
  "removeWhiteSpace (js ''18014398509481984'') = js ''18014398509481984''"
  by (simp_all add: removeWhiteSpace_def isWhiteSpace_def js_def)

lemma large_lines:
  "fileLines (js ''9007199254740993'' @ [0x0A] @ js ''9007199254740992'') =
     [js ''9007199254740993'', js ''9007199254740992'']"
  "fileLines (js ''18014398509481985'' @ [0x0A] @ js ''18014398509481984'') =
     [js ''18014398509481985'', js ''18014398509481984'']"
  by (simp_all add: fileLines_def trim_def isWhiteSpace_def js_def)

lemma large_upload:
  "fileContent (handleFileUpload
       (Some (js ''9007199254740993'' @ [0x0A] @ js ''9007199254740992'')) initialState) =
     [js ''9007199254740993'', js ''9007199254740992'']"
  "fileContent (handleFileUpload
       (Some (js ''18014398509481985'' @ [0x0A] @ js ''18014398509481984'')) initialState) =
     [js ''18014398509481985'', js ''18014398509481984'']"
proof -
  have ok: "validateLines [js ''9007199254740993'', js ''9007199254740992''] = None"
    "validateLines [js ''18014398509481985'', js ''18014398509481984''] = None"
    by (simp_all add: validateLines_None_iff large_digits large_no_space)
  show "fileContent (handleFileUpload
       (Some (js ''9007199254740993'' @ [0x0A] @ js ''9007199254740992'')) initialState) =
     [js ''9007199254740993'', js ''9007199254740992'']"
    unfolding handleFileUpload_def option.case Let_def large_lines ok by simp
  show "fileContent (handleFileUpload
       (Some (js ''18014398509481985'' @ [0x0A] @ js ''18014398509481984'')) initialState) =
     [js ''18014398509481985'', js ''18014398509481984'']"
    unfolding handleFileUpload_def option.case Let_def large_lines ok by simp
qed

text \<open>
  C5. The images of a batch are to be inserted in ascending order of the numeric values of
  the identifiers, which is also what the comment above the sort in the source asks for.
  The code does not do it for identifiers from \<open>2 ^ 53\<close> on. A file with the lines
  9007199254740993 and 9007199254740992 is accepted as it is, and the run puts the image
  of 9007199254740993 into the archive before the image of 9007199254740992, the smaller
  identifier: \<^verbatim>\<open>parseInt\<close> gives both identifiers the Number value 9007199254740992, so the
  comparison function returns 0 and the sort leaves the two records as they came.
\<close>

theorem large_identifiers_packaged_out_of_order:
  "fileContent (handleFileUpload
       (Some (js ''9007199254740993'' @ [0x0A] @ js ''9007199254740992'')) initialState) =
     [js ''9007199254740993'', js ''9007199254740992''] \<and>
   snd (generateAndDownloadQRCodes exampleEnv FixedSecret
          (handleFileUpload (Some (js ''9007199254740993'' @ [0x0A] @ js ''9007199254740992''))
             initialState) []) =
     [Download (js ''QR Codes 1 - 2.zip'')
        [(js ''QR Codes 1 - 2/'', Dir),
         (js ''QR Codes 1 - 2/9007199254740993.png'',
          File (js ''https://check.vant.plus/9007199254740993-h'')),
         (js ''QR Codes 1 - 2/9007199254740992.png'',
          File (js ''https://check.vant.plus/9007199254740992-h''))]] \<and>
   radixValue 10 (js ''9007199254740992'') < radixValue 10 (js ''9007199254740993'')"
proof -
  define st where "st = handleFileUpload
       (Some (js ''9007199254740993'' @ [0x0A] @ js ''9007199254740992'')) initialState"
  have fc: "fileContent st = [js ''9007199254740993'', js ''9007199254740992'']"
    unfolding st_def by (rule large_upload)
  obtain r st' evs' where loop:
    "batch_loop exampleEnv FixedSecret (fileContent st) (password st) (length (fileContent st))
       (Math_ceil_div (length (fileContent st)) BATCH_SIZE) 0
       (st\<lparr>isProcessing := True, error := []\<rparr>) [] = (r, st', evs')"
    by (metis prod_cases3)
  then have "r = None \<and> evs' = [Download (js ''QR Codes 1 - 2.zip'')
        [(js ''QR Codes 1 - 2/'', Dir),
         (js ''QR Codes 1 - 2/9007199254740993.png'',
          File (js ''https://check.vant.plus/9007199254740993-h'')),
         (js ''QR Codes 1 - 2/9007199254740992.png'',
          File (js ''https://check.vant.plus/9007199254740992-h''))]]"
    by (simp add: fc Math_ceil_div_def BATCH_SIZE_def batch_loop.simps [of _ _ _ _ _ _ 0]
        batch_loop.simps [of _ _ _ _ _ _ "Suc 0"] Let_def large_batch [unfolded numeral_2_eq_2]
        large_download [unfolded numeral_2_eq_2 One_nat_def])
  with run_unfold [OF _ _ loop] fc
  have run: "snd (generateAndDownloadQRCodes exampleEnv FixedSecret st []) =
     [Download (js ''QR Codes 1 - 2.zip'')
        [(js ''QR Codes 1 - 2/'', Dir),
         (js ''QR Codes 1 - 2/9007199254740993.png'',
          File (js ''https://check.vant.plus/9007199254740993-h'')),
         (js ''QR Codes 1 - 2/9007199254740992.png'',
          File (js ''https://check.vant.plus/9007199254740992-h''))]]"
    by simp
  from fc run show ?thesis unfolding st_def by (simp add: large_values)
qed

subsection \<open>What the packager changes\<close>

lemma run_keeps_lines:
  "fileContent (fst (generateAndDownloadQRCodes E v st evs)) = fileContent st"
proof (cases "fileContent st = [] \<or> (v = UserSecret \<and> password st = [])")
  case True
  then show ?thesis by (auto simp: generateAndDownloadQRCodes_def)
next
  case False
  obtain r st' evs' where loop:
    "batch_loop E v (fileContent st) (password st) (length (fileContent st))
       (Math_ceil_div (length (fileContent st)) BATCH_SIZE) 0
       (st\<lparr>isProcessing := True, error := []\<rparr>) evs = (r, st', evs')"
    by (metis prod_cases3)
  from batch_loop_state [OF loop] have "fileContent st' = fileContent st" by simp
  with False run_unfold [OF _ _ loop] show ?thesis by (cases r) auto
qed

text \<open>
  What \<^verbatim>\<open>downloadBatch\<close> does to the array of its caller: afterwards it is the sorted array
  (it is unchanged when \<^verbatim>\<open>zip.folder\<close> returned \<^verbatim>\<open>null\<close>, where the function throws before
  it sorts), a permutation of what it was, in ascending order of the Number values that
  \<^verbatim>\<open>parseInt\<close> gives to the identifiers when these are made of digits; only when all
  identifiers are below \<open>2 ^ 53\<close> is that the numeric order of the identifiers. Besides
  that the function adds at most one download (it takes and returns no component state),
  and a run leaves the loaded lines as they were.
\<close>

lemma downloadBatch_effect_on_array:
  "fst (snd (downloadBatch E v qrCodes bn start endN)) =
     (if folder_is_null E (folderNameOf start endN) then qrCodes
      else array_sort compareQRCodes qrCodes) \<and>
   mset (fst (snd (downloadBatch E v qrCodes bn start endN))) = mset qrCodes \<and>
   ((\<forall>r\<in>set qrCodes. allDigits (number r)) \<and> \<not> folder_is_null E (folderNameOf start endN) \<longrightarrow>
      sorted_wrt (\<lambda>a b. numberLE (parseInt (number a)) (parseInt (number b)))
        (fst (snd (downloadBatch E v qrCodes bn start endN))) \<and>
      ((\<forall>r\<in>set qrCodes. radixValue 10 (number r) < 2 ^ 53) \<longrightarrow>
         sorted_wrt (\<lambda>a b. radixValue 10 (number a) \<le> radixValue 10 (number b))
           (fst (snd (downloadBatch E v qrCodes bn start endN))))) \<and>
   (snd (snd (downloadBatch E v qrCodes bn start endN)) = [] \<or>
    (\<exists>name files. snd (snd (downloadBatch E v qrCodes bn start endN)) = [Download name files])) \<and>
   fileContent (fst (generateAndDownloadQRCodes E v st evs)) = fileContent st"
proof (cases "folder_is_null E (folderNameOf start endN)")
  case True
  then have "downloadBatch E v qrCodes bn start endN =
      (Some (Error (js ''Erro ao criar pasta ZIP'')), qrCodes, [])"
    by (simp add: downloadBatch_def)
  with True show ?thesis by (simp add: run_keeps_lines)
next
  case False
  note un = downloadBatch_unfold [OF False, of v qrCodes bn]
  have a: "fst (snd (downloadBatch E v qrCodes bn start endN)) = array_sort compareQRCodes qrCodes"
    by (simp add: un)
  have b: "snd (snd (downloadBatch E v qrCodes bn start endN)) = [] \<or>
    (\<exists>name files. snd (snd (downloadBatch E v qrCodes bn start endN)) = [Download name files])"
    by (simp add: un)
  from False a b show ?thesis
    using array_sort_sorted [of qrCodes] array_sort_exact [of qrCodes]
    by (simp add: mset_array_sort run_keeps_lines)
qed

lemma large_batch_55:
  "processBatch exampleEnv FixedSecret [js ''18014398509481985'', js ''18014398509481984''] pw 0 2 =
     Inr [\<lparr>url = js ''https://check.vant.plus/18014398509481985-h'',
            qrDataUrl = js ''data:image/png;base64,https://check.vant.plus/18014398509481985-h'',
            number = js ''18014398509481985''\<rparr>,
          \<lparr>url = js ''https://check.vant.plus/18014398509481984-h'',
            qrDataUrl = js ''data:image/png;base64,https://check.vant.plus/18014398509481984-h'',
            number = js ''18014398509481984''\<rparr>]"
  by (simp add: processBatch_def processBatch_loop.simps [of _ _ _ _ 0]
      processBatch_loop.simps [of _ _ _ _ "Suc 0"] processBatch_loop.simps [of _ _ _ _ "Suc (Suc 0)"]
      Let_def generateQRCode_def generateHash_def exampleEnv_def removeWhiteSpace_def isWhiteSpace_def
      js_def)

text \<open>
  C10. After a call of the packager the array of the caller is to be in the numeric order
  of the identifiers. The sort is made in place, on the array of the caller, but it does
  not reach that order for identifiers from \<open>2 ^ 53\<close> on; the cause is, as for the order
  of the images in the archive, the comparison of the Number values of \<^verbatim>\<open>parseInt\<close>. A file with the lines 18014398509481985
  and 18014398509481984 is accepted as it is, \<^verbatim>\<open>processBatch\<close> makes the two records of
  these lines, in that order, and after \<^verbatim>\<open>downloadBatch\<close> the array still holds the record
  of 18014398509481985 before the record of 18014398509481984, the smaller identifier.
\<close>

theorem array_keeps_order_of_large_identifiers:
  "fileContent (handleFileUpload
       (Some (js ''18014398509481985'' @ [0x0A] @ js ''18014398509481984'')) initialState) =
     [js ''18014398509481985'', js ''18014398509481984''] \<and>
   processBatch exampleEnv FixedSecret [js ''18014398509481985'', js ''18014398509481984''] [] 0 2 =
     Inr [\<lparr>url = js ''https://check.vant.plus/18014398509481985-h'',
            qrDataUrl = js ''data:image/png;base64,https://check.vant.plus/18014398509481985-h'',
            number = js ''18014398509481985''\<rparr>,
          \<lparr>url = js ''https://check.vant.plus/18014398509481984-h'',
            qrDataUrl = js ''data:image/png;base64,https://check.vant.plus/18014398509481984-h'',
            number = js ''18014398509481984''\<rparr>] \<and>
   fst (snd (downloadBatch exampleEnv FixedSecret
       [\<lparr>url = js ''https://check.vant.plus/18014398509481985-h'',
          qrDataUrl = js ''data:image/png;base64,https://check.vant.plus/18014398509481985-h'',
          number = js ''18014398509481985''\<rparr>,
        \<lparr>url = js ''https://check.vant.plus/18014398509481984-h'',
          qrDataUrl = js ''data:image/png;base64,https://check.vant.plus/18014398509481984-h'',
          number = js ''18014398509481984''\<rparr>] 1 1 2)) =
     [\<lparr>url = js ''https://check.vant.plus/18014398509481985-h'',
        qrDataUrl = js ''data:image/png;base64,https://check.vant.plus/18014398509481985-h'',
        number = js ''18014398509481985''\<rparr>,
      \<lparr>url = js ''https://check.vant.plus/18014398509481984-h'',
        qrDataUrl = js ''data:image/png;base64,https://check.vant.plus/18014398509481984-h'',
        number = js ''18014398509481984''\<rparr>] \<and>
   radixValue 10 (js ''18014398509481984'') < radixValue 10 (js ''18014398509481985'')"
proof -
  have "\<not> folder_is_null exampleEnv (folderNameOf 1 2)" by (simp add: exampleEnv_def)
  from downloadBatch_unfold [OF this]
  have "fst (snd (downloadBatch exampleEnv FixedSecret
       [\<lparr>url = js ''https://check.vant.plus/18014398509481985-h'',
          qrDataUrl = js ''data:image/png;base64,https://check.vant.plus/18014398509481985-h'',
          number = js ''18014398509481985''\<rparr>,
        \<lparr>url = js ''https://check.vant.plus/18014398509481984-h'',
          qrDataUrl = js ''data:image/png;base64,https://check.vant.plus/18014398509481984-h'',
          number = js ''18014398509481984''\<rparr>] 1 1 2)) =
     [\<lparr>url = js ''https://check.vant.plus/18014398509481985-h'',
        qrDataUrl = js ''data:image/png;base64,https://check.vant.plus/18014398509481985-h'',
        number = js ''18014398509481985''\<rparr>,
      \<lparr>url = js ''https://check.vant.plus/18014398509481984-h'',
        qrDataUrl = js ''data:image/png;base64,https://check.vant.plus/18014398509481984-h'',
        number = js ''18014398509481984''\<rparr>]"
    by (simp add: array_sort_def large_compare)
  with large_upload(2) large_batch_55 [of "[]"] show ?thesis
    by (simp only: large_values) simp
qed

end
